theory Spec2Isabelle
  imports Main
begin

section \<open>Python values used by ymd\_utility\<close>

text \<open>
  Exceptions are values.  The module raises only \<open>ValueError\<close> itself; the date
  arithmetic of the standard library adds \<open>OverflowError\<close>.
\<close>

datatype error = ValueError | OverflowError

fun ebind :: "error + 'a \<Rightarrow> ('a \<Rightarrow> error + 'b) \<Rightarrow> error + 'b" where
  "ebind (Inl e) f = Inl e"
| "ebind (Inr x) f = f x"

subsection \<open>Strings\<close>

text \<open>
  A Python \<open>str\<close> is a \<open>string\<close>; one \<open>char\<close> is one code point below 256.
\<close>

definition is_digit :: "char \<Rightarrow> bool" where
  "is_digit c = (48 \<le> (of_char c :: nat) \<and> (of_char c :: nat) \<le> 57)"

definition digit_val :: "char \<Rightarrow> nat" where
  "digit_val c = of_char c - 48"

definition digit_char :: "nat \<Rightarrow> char" where
  "digit_char n = char_of (48 + n)"

text \<open>
  The code points below 256 that \<open>int\<close> drops around a number: tab, line feed,
  vertical tab, form feed, carriage return, space, next line and no-break space.  The
  four separators 28 to 31 are not among them.
\<close>

definition is_space :: "char \<Rightarrow> bool" where
  "is_space c = ((of_char c :: nat) \<in> {9, 10, 11, 12, 13, 32, 133, 160})"

definition strip :: "string \<Rightarrow> string" where
  "strip s = rev (dropWhile is_space (rev (dropWhile is_space s)))"

text \<open>\<open>s.split(sep)\<close> for a one-character separator: never an empty list.\<close>

fun str_split :: "char \<Rightarrow> string \<Rightarrow> string list" where
  "str_split sep [] = [[]]"
| "str_split sep (c # s) =
     (if c = sep then [] # str_split sep s
      else (case str_split sep s of
              [] \<Rightarrow> [[c]]
            | w # ws \<Rightarrow> (c # w) # ws))"

text \<open>\<open>s.upper()\<close>: the ASCII letters; every other code point below 128 is unchanged
  (no code point at all other than \<open>w\<close>, \<open>W\<close>, \<open>d\<close>, \<open>D\<close> is mapped to \<open>W\<close> or \<open>D\<close>).\<close>

definition upper_char :: "char \<Rightarrow> char" where
  "upper_char c =
     (if 97 \<le> (of_char c :: nat) \<and> (of_char c :: nat) \<le> 122
      then char_of ((of_char c :: nat) - 32) else c)"

definition upper :: "string \<Rightarrow> string" where
  "upper s = map upper_char s"

subsection \<open>\<open>int(text)\<close>\<close>

text \<open>
  \<open>int\<close> of a string in base 10: surrounding whitespace is dropped, one sign is
  allowed, and the digits may be grouped by single underscores.  Anything else is a
  \<open>ValueError\<close>, and so is a number of more than 4300 digits (underscores and sign
  not counted, leading zeros counted).
\<close>

fun int_body_ok :: "string \<Rightarrow> bool" where
  "int_body_ok [] = False"
| "int_body_ok [c] = is_digit c"
| "int_body_ok (c # d # cs) =
     (is_digit c \<and> (if d = CHR ''_'' then int_body_ok cs else int_body_ok (d # cs)))"

definition nat_of_digits :: "string \<Rightarrow> nat" where
  "nat_of_digits ds = foldl (\<lambda>a c. 10 * a + digit_val c) 0 ds"

definition MAX_STR_DIGITS :: nat where "MAX_STR_DIGITS = 4300"

definition int_body :: "string \<Rightarrow> error + int" where
  "int_body r =
     (if int_body_ok r \<and> length (filter is_digit r) \<le> MAX_STR_DIGITS
      then Inr (int (nat_of_digits (filter is_digit r)))
      else Inl ValueError)"

definition py_int :: "string \<Rightarrow> error + int" where
  "py_int s =
     (case strip s of
        [] \<Rightarrow> Inl ValueError
      | c # r \<Rightarrow>
          if c = CHR ''-'' then ebind (int_body r) (\<lambda>v. Inr (- v))
          else if c = CHR ''+'' then int_body r
          else int_body (c # r))"

text \<open>\<open>str(n)\<close> and the \<open>%0wd\<close> conversion of a non-negative integer.\<close>

fun digits_of :: "nat \<Rightarrow> string" where
  "digits_of n =
     (if n < 10 then [digit_char n]
      else digits_of (n div 10) @ [digit_char (n mod 10)])"

declare digits_of.simps [simp del]

definition zero_pad :: "nat \<Rightarrow> int \<Rightarrow> string" where
  "zero_pad w i =
     (if i < 0
      then CHR ''-'' # replicate (w - 1 - length (digits_of (nat (- i)))) CHR ''0''
             @ digits_of (nat (- i))
      else replicate (w - length (digits_of (nat i))) CHR ''0'' @ digits_of (nat i))"

subsection \<open>The calendar primitive \<open>datetime.date\<close>\<close>

text \<open>
  The date type of the standard library: the proleptic Gregorian calendar, years 1 to
  9999.  The constructor first takes its three arguments as C integers, and raises
  \<open>OverflowError\<close> when one does not fit 32 bits; then it raises \<open>ValueError\<close> for a
  field out of range.
\<close>

record date =
  date_year :: int
  date_month :: int
  date_day :: int

definition is_leap :: "int \<Rightarrow> bool" where
  "is_leap y = (y mod 4 = 0 \<and> (y mod 100 \<noteq> 0 \<or> y mod 400 = 0))"

definition days_in_month :: "int \<Rightarrow> int \<Rightarrow> int" where
  "days_in_month y m =
     (if m = 2 then (if is_leap y then 29 else 28)
      else if m = 4 \<or> m = 6 \<or> m = 9 \<or> m = 11 then 30
      else 31)"

definition MINYEAR :: int where "MINYEAR = 1"
definition MAXYEAR :: int where "MAXYEAR = 9999"

definition c_int :: "int \<Rightarrow> bool" where
  "c_int i = (- 2147483648 \<le> i \<and> i \<le> 2147483647)"

definition date_object :: "int \<Rightarrow> int \<Rightarrow> int \<Rightarrow> error + date" where
  "date_object y m d =
     (if \<not> (c_int y \<and> c_int m \<and> c_int d) then Inl OverflowError
      else if MINYEAR \<le> y \<and> y \<le> MAXYEAR \<and> 1 \<le> m \<and> m \<le> 12 \<and> 1 \<le> d
              \<and> d \<le> days_in_month y m
      then Inr \<lparr>date_year = y, date_month = m, date_day = d\<rparr>
      else Inl ValueError)"

section \<open>The validator\<close>

text \<open>
  The pattern \<open>[0-9]{4}-[0-9]{2}-[0-9]{2}\<close> as a list of items, and \<open>re.match\<close>:
  the pattern has to match at the start of the text, and the text may go on after it.
\<close>

datatype item = Digit | Lit char

definition date_pattern :: "item list" where
  "date_pattern =
     [Digit, Digit, Digit, Digit, Lit CHR ''-'', Digit, Digit, Lit CHR ''-'', Digit, Digit]"

fun re_match :: "item list \<Rightarrow> string \<Rightarrow> bool" where
  "re_match [] s = True"
| "re_match (i # is) [] = False"
| "re_match (Digit # is) (c # s) = (is_digit c \<and> re_match is s)"
| "re_match (Lit l # is) (c # s) = (c = l \<and> re_match is s)"

text \<open>
  \<open>is_ymd\<close>.  The unpacking of \<open>ymd_date.split("-")\<close> into three names stands before
  the \<open>try\<close>: with any other number of parts its \<open>ValueError\<close> leaves the function.
  Inside the \<open>try\<close> a \<open>ValueError\<close> becomes the result \<open>False\<close>.
\<close>

definition try_date :: "string \<Rightarrow> string \<Rightarrow> string \<Rightarrow> error + bool" where
  "try_date year month day =
     (case ebind (py_int year) (\<lambda>y. ebind (py_int month) (\<lambda>m. ebind (py_int day) (\<lambda>d.
             date_object y m d))) of
        Inr _ \<Rightarrow> Inr True
      | Inl ValueError \<Rightarrow> Inr False
      | Inl e \<Rightarrow> Inl e)"

definition is_ymd :: "string \<Rightarrow> error + bool" where
  "is_ymd ymd_date =
     (if \<not> re_match date_pattern ymd_date then Inr False
      else (case str_split CHR ''-'' ymd_date of
              [year, month, day] \<Rightarrow> try_date year month day
            | _ \<Rightarrow> Inl ValueError))"


subsection \<open>Date arithmetic of the standard library\<close>

text \<open>
  A \<open>datetime.datetime\<close> (without time zone) is a date and a time of day.  Its
  constructor checks the date fields as \<open>date\<close> does; the module only ever builds
  midnights.
\<close>

record datetime =
  dt_date :: date
  hour :: int
  minute :: int
  second :: int
  microsecond :: int

definition datetime_object :: "int \<Rightarrow> int \<Rightarrow> int \<Rightarrow> error + datetime" where
  "datetime_object y m d =
     ebind (date_object y m d)
       (\<lambda>D. Inr \<lparr>dt_date = D, hour = 0, minute = 0, second = 0, microsecond = 0\<rparr>)"

text \<open>\<open>str(date)\<close> is \<open>YYYY-MM-DD\<close>; \<open>str(datetime)\<close> puts a space and the time
  of day after it, with the microseconds when there are any.\<close>

definition str_date :: "date \<Rightarrow> string" where
  "str_date D =
     zero_pad 4 (date_year D) @ ''-'' @ zero_pad 2 (date_month D) @ ''-''
       @ zero_pad 2 (date_day D)"

definition str_datetime :: "datetime \<Rightarrow> string" where
  "str_datetime T =
     str_date (dt_date T) @ '' '' @ zero_pad 2 (hour T) @ '':'' @ zero_pad 2 (minute T)
       @ '':'' @ zero_pad 2 (second T)
       @ (if microsecond T = 0 then [] else ''.'' @ zero_pad 6 (microsecond T))"

text \<open>The day after and the day before a date, on the calendar without year bounds.\<close>

definition next_day :: "date \<Rightarrow> date" where
  "next_day D =
     (if date_day D < days_in_month (date_year D) (date_month D)
      then D\<lparr>date_day := date_day D + 1\<rparr>
      else if date_month D < 12
      then \<lparr>date_year = date_year D, date_month = date_month D + 1, date_day = 1\<rparr>
      else \<lparr>date_year = date_year D + 1, date_month = 1, date_day = 1\<rparr>)"

definition prev_day :: "date \<Rightarrow> date" where
  "prev_day D =
     (if 1 < date_day D
      then D\<lparr>date_day := date_day D - 1\<rparr>
      else if 1 < date_month D
      then \<lparr>date_year = date_year D, date_month = date_month D - 1,
             date_day = days_in_month (date_year D) (date_month D - 1)\<rparr>
      else \<lparr>date_year = date_year D - 1, date_month = 12, date_day = 31\<rparr>)"

definition shift_days :: "date \<Rightarrow> int \<Rightarrow> date" where
  "shift_days D n = (if 0 \<le> n then (next_day ^^ nat n) D else (prev_day ^^ nat (- n)) D)"

text \<open>
  \<open>timedelta(days=n)\<close> holds at most 999999999 days either way.  Only whole days
  are ever added, so a \<open>timedelta\<close> is its number of days.
\<close>

definition timedelta_days :: "int \<Rightarrow> error + int" where
  "timedelta_days n = (if \<bar>n\<bar> \<le> 999999999 then Inr n else Inl OverflowError)"

definition timedelta_weeks :: "int \<Rightarrow> error + int" where
  "timedelta_weeks n = timedelta_days (7 * n)"

text \<open>
  \<open>datetime + timedelta\<close> moves the date by that many days and keeps the time of
  day; a result outside the years 1 to 9999 is an \<open>OverflowError\<close>.  Subtraction adds
  the negated duration.
\<close>

definition datetime_add :: "datetime \<Rightarrow> int \<Rightarrow> error + datetime" where
  "datetime_add T n =
     (let D = shift_days (dt_date T) n
      in if MINYEAR \<le> date_year D \<and> date_year D \<le> MAXYEAR then Inr (T\<lparr>dt_date := D\<rparr>)
         else Inl OverflowError)"

definition datetime_sub :: "datetime \<Rightarrow> int \<Rightarrow> error + datetime" where
  "datetime_sub T n = datetime_add T (- n)"

text \<open>Dates compare by year, then month, then day.\<close>

definition date_gt :: "date \<Rightarrow> date \<Rightarrow> bool" where
  "date_gt D E =
     (date_year D > date_year E
      \<or> (date_year D = date_year E
          \<and> (date_month D > date_month E
              \<or> (date_month D = date_month E \<and> date_day D > date_day E))))"

definition date_ge :: "date \<Rightarrow> date \<Rightarrow> bool" where
  "date_ge D E = (date_gt D E \<or> D = E)"

text \<open>\<open>toordinal\<close> counts days from 0001-01-01 as day 1; \<open>weekday\<close> is 0 on Monday.\<close>

definition days_before_year :: "int \<Rightarrow> int" where
  "days_before_year y = (y - 1) * 365 + (y - 1) div 4 - (y - 1) div 100 + (y - 1) div 400"

definition DAYS_BEFORE_MONTH :: "int list" where
  "DAYS_BEFORE_MONTH = [0, 31, 59, 90, 120, 151, 181, 212, 243, 273, 304, 334]"

definition days_before_month :: "int \<Rightarrow> int \<Rightarrow> int" where
  "days_before_month y m =
     DAYS_BEFORE_MONTH ! nat (m - 1) + (if m > 2 \<and> is_leap y then 1 else 0)"

definition toordinal :: "date \<Rightarrow> int" where
  "toordinal D =
     days_before_year (date_year D) + days_before_month (date_year D) (date_month D)
       + date_day D"

definition weekday :: "date \<Rightarrow> int" where
  "weekday D = (toordinal D + 6) mod 7"

section \<open>The class \<open>YMDDate\<close>\<close>

text \<open>
  An instance holds the three texts \<open>_year\<close>, \<open>_month\<close> and \<open>_day\<close>, read through
  the properties \<open>year\<close>, \<open>month\<close> and \<open>day\<close>.  Its two other attributes, the table
  of weekday names and the empty list \<open>_holidays\<close>, are the same in every instance.
\<close>

record YMDDate =
  year :: string
  month :: string
  day :: string

text \<open>The values that reach the constructor, the comparisons and the holiday list.\<close>

datatype pyval =
  Str string
| DateObj date
| DateTimeObj datetime
| Inst YMDDate
| Other

definition is_ymd_date :: "date \<Rightarrow> error + bool" where
  "is_ymd_date ymd_date = is_ymd (str_date ymd_date)"

text \<open>\<open>dt_string.split(" ")[0]\<close>: the split has at least one part.\<close>

definition first_part :: "string \<Rightarrow> string" where
  "first_part dt_string = (case str_split CHR '' '' dt_string of [] \<Rightarrow> [] | w # _ \<Rightarrow> w)"

definition is_ymd_datetime :: "datetime \<Rightarrow> error + bool" where
  "is_ymd_datetime ymd_datetime = is_ymd (first_part (str_datetime ymd_datetime))"

definition ymd_from_string :: "string \<Rightarrow> error + YMDDate" where
  "ymd_from_string ymd_string =
     (case str_split CHR ''-'' ymd_string of
        [y, m, d] \<Rightarrow> Inr \<lparr>year = y, month = m, day = d\<rparr>
      | _ \<Rightarrow> Inl ValueError)"

definition ymd_from_date :: "date \<Rightarrow> error + YMDDate" where
  "ymd_from_date ymd_date = ymd_from_string (str_date ymd_date)"

definition ymd_from_datetime :: "datetime \<Rightarrow> error + YMDDate" where
  "ymd_from_datetime ymd_datetime = ymd_from_string (first_part (str_datetime ymd_datetime))"

text \<open>\<open>__init__\<close>: the fields are assigned only after the validator of the input's
  type has accepted it; every other path raises.\<close>

fun YMDDate_init :: "pyval \<Rightarrow> error + YMDDate" where
  "YMDDate_init (Str s) =
     ebind (is_ymd s) (\<lambda>ok. if ok then ymd_from_string s else Inl ValueError)"
| "YMDDate_init (DateObj D) =
     ebind (is_ymd_date D) (\<lambda>ok. if ok then ymd_from_date D else Inl ValueError)"
| "YMDDate_init (DateTimeObj T) =
     ebind (is_ymd_datetime T) (\<lambda>ok. if ok then ymd_from_datetime T else Inl ValueError)"
| "YMDDate_init _ = Inl ValueError"

definition to_date :: "YMDDate \<Rightarrow> error + date" where
  "to_date self =
     ebind (py_int (year self)) (\<lambda>y. ebind (py_int (month self)) (\<lambda>m.
       ebind (py_int (day self)) (\<lambda>d. date_object y m d)))"

definition to_datetime :: "YMDDate \<Rightarrow> error + datetime" where
  "to_datetime self =
     ebind (py_int (year self)) (\<lambda>y. ebind (py_int (month self)) (\<lambda>m.
       ebind (py_int (day self)) (\<lambda>d. datetime_object y m d)))"

definition str_ymd :: "YMDDate \<Rightarrow> string" where
  "str_ymd self = year self @ ''-'' @ month self @ ''-'' @ day self"


subsection \<open>Comparisons\<close>

text \<open>
  \<open>__eq__\<close> compares the three stored texts with the texts taken from the other
  operand.  \<open>__gt__\<close> and \<open>__ge__\<close> first build this instance's \<open>date\<close> from the
  integers of its texts, then the other operand's, and compare the two dates.  A
  right-hand operand of another type, or one its validator rejects, gives \<open>False\<close>.
\<close>

definition same_texts :: "YMDDate \<Rightarrow> YMDDate \<Rightarrow> bool" where
  "same_texts self other = (year self = year other \<and> month self = month other \<and> day self = day other)"

fun ymd_eq :: "YMDDate \<Rightarrow> pyval \<Rightarrow> error + bool" where
  "ymd_eq self (Inst other) = Inr (same_texts self other)"
| "ymd_eq self (Str other) =
     ebind (is_ymd other) (\<lambda>ok.
       if ok then ebind (ymd_from_string other) (\<lambda>t. Inr (same_texts self t)) else Inr False)"
| "ymd_eq self (DateTimeObj other) =
     ebind (is_ymd_datetime other) (\<lambda>ok.
       if ok then ebind (ymd_from_datetime other) (\<lambda>t. Inr (same_texts self t)) else Inr False)"
| "ymd_eq self (DateObj other) =
     ebind (is_ymd_date other) (\<lambda>ok.
       if ok then ebind (ymd_from_date other) (\<lambda>t. Inr (same_texts self t)) else Inr False)"
| "ymd_eq self Other = Inr False"

definition compare_with :: "(date \<Rightarrow> date \<Rightarrow> bool) \<Rightarrow> date \<Rightarrow> YMDDate \<Rightarrow> error + bool" where
  "compare_with rel this_date other = ebind (to_date other) (\<lambda>other_date. Inr (rel this_date other_date))"

fun ymd_compare :: "(date \<Rightarrow> date \<Rightarrow> bool) \<Rightarrow> date \<Rightarrow> pyval \<Rightarrow> error + bool" where
  "ymd_compare rel this_date (Inst other) = compare_with rel this_date other"
| "ymd_compare rel this_date (Str other) =
     ebind (is_ymd other) (\<lambda>ok.
       if ok then ebind (ymd_from_string other) (compare_with rel this_date) else Inr False)"
| "ymd_compare rel this_date (DateTimeObj other) =
     ebind (is_ymd_datetime other) (\<lambda>ok.
       if ok then ebind (ymd_from_datetime other) (compare_with rel this_date) else Inr False)"
| "ymd_compare rel this_date (DateObj other) =
     ebind (is_ymd_date other) (\<lambda>ok.
       if ok then ebind (ymd_from_date other) (compare_with rel this_date) else Inr False)"
| "ymd_compare rel this_date Other = Inr False"

definition ymd_gt :: "YMDDate \<Rightarrow> pyval \<Rightarrow> error + bool" where
  "ymd_gt self other = ebind (to_date self) (\<lambda>this_date. ymd_compare date_gt this_date other)"

definition ymd_ge :: "YMDDate \<Rightarrow> pyval \<Rightarrow> error + bool" where
  "ymd_ge self other = ebind (to_date self) (\<lambda>this_date. ymd_compare date_ge this_date other)"

subsection \<open>Queries\<close>

text \<open>
  \<open>is_holiday\<close> answers \<open>True\<close>, \<open>False\<close> or \<open>None\<close>: the result is a
  \<open>bool option\<close>.  A text of the list goes through the constructor, and only a
  \<open>ValueError\<close> of the constructor is caught.  Entries that are neither a text nor
  an instance are passed over.  The message printed before \<open>None\<close> is returned is not
  part of the result.
\<close>

fun is_holiday_loop :: "YMDDate \<Rightarrow> pyval list \<Rightarrow> error + bool option" where
  "is_holiday_loop self [] = Inr (Some False)"
| "is_holiday_loop self (Str holiday # holidays) =
     (case YMDDate_init (Str holiday) of
        Inl ValueError \<Rightarrow> Inr None
      | Inl e \<Rightarrow> Inl e
      | Inr ymd_holiday \<Rightarrow>
          (case ymd_eq ymd_holiday (Inst self) of
             Inl e \<Rightarrow> Inl e
           | Inr True \<Rightarrow> Inr (Some True)
           | Inr False \<Rightarrow> is_holiday_loop self holidays))"
| "is_holiday_loop self (Inst holiday # holidays) =
     (case ymd_eq holiday (Inst self) of
        Inl e \<Rightarrow> Inl e
      | Inr True \<Rightarrow> Inr (Some True)
      | Inr False \<Rightarrow> is_holiday_loop self holidays)"
| "is_holiday_loop self (_ # holidays) = is_holiday_loop self holidays"

definition is_holiday :: "YMDDate \<Rightarrow> pyval list \<Rightarrow> error + bool option" where
  "is_holiday self holidays =
     (if length holidays = 0 then Inr (Some False) else is_holiday_loop self holidays)"

definition is_weekend :: "YMDDate \<Rightarrow> error + bool" where
  "is_weekend self = ebind (to_date self) (\<lambda>D. Inr (weekday D \<ge> 5))"

definition is_weekday :: "YMDDate \<Rightarrow> error + bool" where
  "is_weekday self = ebind (to_date self) (\<lambda>D. Inr (weekday D < 5))"

text \<open>
  The holiday calendar is the provider's and is a parameter: \<open>cal start end\<close> stands
  for what \<open>USFederalHolidayCalendar().holidays(start, end)\<close> does, which is to yield
  dates or to raise (as the provider does for years at either end of the range of
  \<open>datetime\<close>).  A raise of the provider leaves \<open>is_us_federal_holiday\<close>.
\<close>

type_synonym calendar = "string \<Rightarrow> string \<Rightarrow> error + date list"

definition is_us_federal_holiday :: "calendar \<Rightarrow> YMDDate \<Rightarrow> error + bool" where
  "is_us_federal_holiday cal self =
     (let start_date = year self @ ''-01-01'';
          end_date = year self @ ''-12-31''
      in ebind (cal start_date end_date) (\<lambda>holidays.
           ebind (to_date self) (\<lambda>D. Inr (D \<in> set holidays))))"

subsection \<open>Arithmetic\<close>

text \<open>
  Every result is a new instance, built by the constructor from a \<open>datetime\<close>.  The
  counts are integers here, so the tests for \<open>None\<close> at the head of each method never
  raise.
\<close>

definition n_days :: "YMDDate \<Rightarrow> int \<Rightarrow> error + YMDDate" where
  "n_days self days =
     (if days > 0
      then ebind (to_datetime self) (\<lambda>T. ebind (timedelta_days days) (\<lambda>td.
             ebind (datetime_add T td) (\<lambda>T'. YMDDate_init (DateTimeObj T'))))
      else if days < 0
      then ebind (to_datetime self) (\<lambda>T. ebind (timedelta_days \<bar>days\<bar>) (\<lambda>td.
             ebind (datetime_sub T td) (\<lambda>T'. YMDDate_init (DateTimeObj T'))))
      else ebind (to_datetime self) (\<lambda>T. YMDDate_init (DateTimeObj T)))"

definition n_weeks :: "YMDDate \<Rightarrow> int \<Rightarrow> error + YMDDate" where
  "n_weeks self weeks =
     (if weeks > 0
      then ebind (to_datetime self) (\<lambda>T. ebind (timedelta_weeks weeks) (\<lambda>td.
             ebind (datetime_add T td) (\<lambda>T'. YMDDate_init (DateTimeObj T'))))
      else if weeks < 0
      then ebind (to_datetime self) (\<lambda>T. ebind (timedelta_weeks \<bar>weeks\<bar>) (\<lambda>td.
             ebind (datetime_sub T td) (\<lambda>T'. YMDDate_init (DateTimeObj T'))))
      else ebind (to_datetime self) (\<lambda>T. YMDDate_init (DateTimeObj T)))"

text \<open>
  \<open>n_months\<close> and \<open>n_years\<close> return the copy for 0 before they look at \<open>units\<close>.
  Past that test the count is positive or negative, so the inner \<open>if\<close>/\<open>elif\<close> has
  two cases.  \<open>n_months\<close> compares \<open>units.upper()\<close>, \<open>n_years\<close> compares \<open>units\<close>.
\<close>

definition forward_or_back :: "YMDDate \<Rightarrow> bool \<Rightarrow> error + int \<Rightarrow> error + YMDDate" where
  "forward_or_back self forward delta =
     ebind (to_datetime self) (\<lambda>T. ebind delta (\<lambda>td.
       ebind (if forward then datetime_add T td else datetime_sub T td) (\<lambda>T'.
         YMDDate_init (DateTimeObj T'))))"

definition n_months :: "YMDDate \<Rightarrow> int \<Rightarrow> string \<Rightarrow> int \<Rightarrow> int \<Rightarrow> error + YMDDate" where
  "n_months self months units weeks_per_month days_per_month =
     (if months = 0 then ebind (to_datetime self) (\<lambda>T. YMDDate_init (DateTimeObj T))
      else if upper units = ''W''
      then (let number_of_weeks = \<bar>weeks_per_month * months\<bar>
            in forward_or_back self (months > 0) (timedelta_weeks number_of_weeks))
      else if upper units = ''D''
      then (let number_of_days = \<bar>days_per_month * months\<bar>
            in forward_or_back self (months > 0) (timedelta_days number_of_days))
      else Inl ValueError)"

definition n_years :: "YMDDate \<Rightarrow> int \<Rightarrow> string \<Rightarrow> int \<Rightarrow> int \<Rightarrow> error + YMDDate" where
  "n_years self years units days_per_year weeks_per_year =
     (if years = 0 then ebind (to_datetime self) (\<lambda>T. YMDDate_init (DateTimeObj T))
      else if units = ''D''
      then (let number_of_days = \<bar>years * days_per_year\<bar>
            in forward_or_back self (years > 0) (timedelta_days number_of_days))
      else if units = ''W''
      then (let number_of_weeks = \<bar>years * weeks_per_year\<bar>
            in forward_or_back self (years > 0) (timedelta_weeks number_of_weeks))
      else Inl ValueError)"

definition tomorrow :: "YMDDate \<Rightarrow> error + YMDDate" where
  "tomorrow self =
     ebind (to_datetime self) (\<lambda>T. ebind (timedelta_days 1) (\<lambda>td.
       ebind (datetime_add T td) (\<lambda>next_day. YMDDate_init (DateTimeObj next_day))))"

definition next_week :: "YMDDate \<Rightarrow> error + YMDDate" where
  "next_week self =
     ebind (to_datetime self) (\<lambda>T. ebind (timedelta_days 7) (\<lambda>td.
       ebind (datetime_add T td) (\<lambda>next_week. YMDDate_init (DateTimeObj next_week))))"

text \<open>\<open>next_month\<close> and \<open>next_year\<close> give an instance (\<open>Inl\<close>) when \<open>full_date\<close>
  holds and a number (\<open>Inr\<close>) otherwise.\<close>

definition next_month :: "YMDDate \<Rightarrow> bool \<Rightarrow> error + (YMDDate + int)" where
  "next_month self full_date =
     (if full_date then ebind (n_months self 1 ''W'' 4 30) (\<lambda>r. Inr (Inl r))
      else ebind (n_months self 1 ''W'' 4 30) (\<lambda>r. ebind (py_int (month r)) (\<lambda>i. Inr (Inr i))))"

definition next_year :: "YMDDate \<Rightarrow> bool \<Rightarrow> error + (YMDDate + int)" where
  "next_year self full_date =
     (if full_date then ebind (n_years self 1 ''W'' 365 52) (\<lambda>r. Inr (Inl r))
      else ebind (py_int (year self)) (\<lambda>i. Inr (Inr (i + 1))))"

section \<open>Notions used in the statements\<close>

text \<open>
  A \<open>date\<close> of the standard library always satisfies \<open>valid_date\<close>.  An instance is
  \<open>canonical\<close> when its texts are four, two and two digits; \<open>ymd_of_date\<close> is the
  canonical instance of a date.  A text has the \<open>exact_shape\<close> when it is four digits,
  a hyphen, two digits, a hyphen, two digits and nothing more, and is
  \<open>calendar_valid\<close> when its three numbers are accepted by \<open>date\<close>.
  \<open>valid_md\<close> is \<open>valid_date\<close> without the bounds on the year, and \<open>date_key\<close>
  is a number that grows with the date.
\<close>

definition valid_date :: "date \<Rightarrow> bool" where
  "valid_date D =
     (MINYEAR \<le> date_year D \<and> date_year D \<le> MAXYEAR \<and> 1 \<le> date_month D \<and> date_month D \<le> 12
      \<and> 1 \<le> date_day D \<and> date_day D \<le> days_in_month (date_year D) (date_month D))"

definition ymd_of_date :: "date \<Rightarrow> YMDDate" where
  "ymd_of_date D =
     \<lparr>year = zero_pad 4 (date_year D), month = zero_pad 2 (date_month D),
      day = zero_pad 2 (date_day D)\<rparr>"

definition midnight :: "date \<Rightarrow> datetime" where
  "midnight D = \<lparr>dt_date = D, hour = 0, minute = 0, second = 0, microsecond = 0\<rparr>"

definition canonical :: "YMDDate \<Rightarrow> bool" where
  "canonical self =
     (length (year self) = 4 \<and> list_all is_digit (year self)
      \<and> length (month self) = 2 \<and> list_all is_digit (month self)
      \<and> length (day self) = 2 \<and> list_all is_digit (day self))"

definition exact_shape :: "string \<Rightarrow> bool" where
  "exact_shape s =
     (length s = 10 \<and> list_all is_digit (take 4 s) \<and> s ! 4 = CHR ''-''
      \<and> list_all is_digit (take 2 (drop 5 s)) \<and> s ! 7 = CHR ''-''
      \<and> list_all is_digit (drop 8 s))"

definition calendar_valid :: "string \<Rightarrow> bool" where
  "calendar_valid s =
     (case date_object (int (nat_of_digits (take 4 s))) (int (nat_of_digits (take 2 (drop 5 s))))
             (int (nat_of_digits (drop 8 s))) of
        Inl _ \<Rightarrow> False
      | Inr _ \<Rightarrow> True)"

definition valid_md :: "date \<Rightarrow> bool" where
  "valid_md D =
     (1 \<le> date_month D \<and> date_month D \<le> 12 \<and> 1 \<le> date_day D
      \<and> date_day D \<le> days_in_month (date_year D) (date_month D))"

definition date_key :: "date \<Rightarrow> int" where
  "date_key D = date_year D * 372 + date_month D * 31 + date_day D"

text \<open>
  For the holiday calendar \<open>cal\<close>, \<open>holidays_of\<close> is what the provider does for the
  year of a date.  A date is \<open>non_business\<close> when the provider yields dates and the date
  is one of them or falls on a Saturday or Sunday, and is a \<open>business_day\<close> when the
  provider yields dates and neither holds.  \<open>no_holidays\<close> and \<open>january_2024\<close> are two
  calendars to try the functions on.
\<close>

definition holidays_of :: "calendar \<Rightarrow> date \<Rightarrow> error + date list" where
  "holidays_of cal D =
     cal (zero_pad 4 (date_year D) @ ''-01-01'') (zero_pad 4 (date_year D) @ ''-12-31'')"

definition non_business :: "calendar \<Rightarrow> date \<Rightarrow> bool" where
  "non_business cal D =
     (case holidays_of cal D of
        Inl _ \<Rightarrow> False
      | Inr holidays \<Rightarrow> D \<in> set holidays \<or> weekday D \<ge> 5)"

definition business_day :: "calendar \<Rightarrow> date \<Rightarrow> bool" where
  "business_day cal D =
     (case holidays_of cal D of
        Inl _ \<Rightarrow> False
      | Inr holidays \<Rightarrow> D \<notin> set holidays \<and> weekday D < 5)"

definition no_holidays :: calendar where
  "no_holidays start_date end_date = Inr []"

definition january_2024 :: calendar where
  "january_2024 start_date end_date =
     (if start_date = ''2024-01-01''
      then Inr [\<lparr>date_year = 2024, date_month = 1, date_day = 1\<rparr>,
                \<lparr>date_year = 2024, date_month = 1, date_day = 15\<rparr>]
      else Inr [])"

text \<open>
  An instance \<open>denotes_date\<close> when \<open>date\<close> accepts the integers of its three texts;
  \<open>result_ok\<close> says so of the instance an operation returns, and \<open>full_result_ok\<close>
  of the instance that \<open>next_month\<close> or \<open>next_year\<close> returns.  An entry of a
  holiday list is \<open>malformed\<close> when it is a text on which the constructor raises, and
  \<open>matches\<close> the instance when it is an instance, or a text the constructor accepts,
  that \<open>__eq__\<close> finds equal to it.
\<close>

definition denotes_date :: "YMDDate \<Rightarrow> bool" where
  "denotes_date self = (case to_date self of Inl _ \<Rightarrow> False | Inr _ \<Rightarrow> True)"

definition result_ok :: "error + YMDDate \<Rightarrow> bool" where
  "result_ok r = (case r of Inl _ \<Rightarrow> True | Inr a \<Rightarrow> denotes_date a)"

definition full_result_ok :: "error + (YMDDate + int) \<Rightarrow> bool" where
  "full_result_ok r = (case r of Inr (Inl a) \<Rightarrow> denotes_date a | _ \<Rightarrow> True)"

definition malformed :: "pyval \<Rightarrow> bool" where
  "malformed h =
     (case h of
        Str s \<Rightarrow> (case YMDDate_init (Str s) of Inl _ \<Rightarrow> True | Inr _ \<Rightarrow> False)
      | _ \<Rightarrow> False)"

definition matches :: "YMDDate \<Rightarrow> pyval \<Rightarrow> bool" where
  "matches self h =
     (case h of
        Str s \<Rightarrow>
          (case YMDDate_init (Str s) of
             Inl _ \<Rightarrow> False
           | Inr ymd_holiday \<Rightarrow> ymd_eq ymd_holiday (Inst self) = Inr True)
      | Inst holiday \<Rightarrow> ymd_eq holiday (Inst self) = Inr True
      | _ \<Rightarrow> False)"

section \<open>Digits, texts and numbers\<close>

lemma digit_char_val: "is_digit c \<Longrightarrow> digit_char (digit_val c) = c"
  by (simp add: is_digit_def digit_char_def digit_val_def)

lemma digit_val_char: "k < 10 \<Longrightarrow> digit_val (digit_char k) = k"
  by (simp add: digit_char_def digit_val_def)

lemma is_digit_char: "k < 10 \<Longrightarrow> is_digit (digit_char k)"
  by (simp add: digit_char_def is_digit_def)

lemma digit_val_less: "is_digit c \<Longrightarrow> digit_val c < 10"
  by (auto simp: is_digit_def digit_val_def)

lemma digit_not_space: "is_digit c \<Longrightarrow> \<not> is_space c"
  by (auto simp: is_digit_def is_space_def)

lemma digit_not_special:
  "is_digit c \<Longrightarrow> c \<noteq> CHR ''-'' \<and> c \<noteq> CHR ''+'' \<and> c \<noteq> CHR ''_'' \<and> c \<noteq> CHR '' ''"
  by (auto simp: is_digit_def)

lemma digits_of_digits: "list_all is_digit (digits_of n)"
  by (induction n rule: digits_of.induct) (subst digits_of.simps, simp add: is_digit_char)

lemma digits_of_not_Nil: "digits_of n \<noteq> []"
  by (subst digits_of.simps) simp

lemma nat_of_digits_snoc: "nat_of_digits (ds @ [c]) = 10 * nat_of_digits ds + digit_val c"
  by (simp add: nat_of_digits_def)

lemma nat_of_digits_of: "nat_of_digits (digits_of n) = n"
proof (induction n rule: digits_of.induct)
  case (1 n)
  show ?case
  proof (cases "n < 10")
    case True
    then show ?thesis
      by (subst digits_of.simps) (simp add: nat_of_digits_def digit_val_char)
  next
    case False
    with 1 show ?thesis
      by (subst digits_of.simps) (simp add: nat_of_digits_snoc digit_val_char)
  qed
qed

lemma nat_of_digits_zeros: "nat_of_digits (replicate k CHR ''0'' @ ds) = nat_of_digits ds"
proof -
  have "foldl (\<lambda>a c. 10 * a + digit_val c) 0 (replicate k CHR ''0'') = 0"
    by (induction k) (simp_all add: digit_val_def)
  then show ?thesis by (simp add: nat_of_digits_def)
qed

lemma int_body_ok_digits: "ds \<noteq> [] \<Longrightarrow> list_all is_digit ds \<Longrightarrow> int_body_ok ds"
  by (induction ds rule: int_body_ok.induct) (auto simp: digit_not_special)

lemma filter_digits: "list_all is_digit ds \<Longrightarrow> filter is_digit ds = ds"
  by (induction ds) auto

lemma strip_digits: "ds \<noteq> [] \<Longrightarrow> list_all is_digit ds \<Longrightarrow> strip ds = ds"
proof -
  assume ne: "ds \<noteq> []" and dg: "list_all is_digit ds"
  from ne dg have "\<not> is_space (hd ds)" by (cases ds) (auto simp: digit_not_space)
  with ne have a: "dropWhile is_space ds = ds" by (cases ds) auto
  from ne dg have "\<not> is_space (last ds)"
    by (metis digit_not_space last_in_set list_all_iff)
  with ne have b: "dropWhile is_space (rev ds) = rev ds"
    by (cases "rev ds") (auto simp: last_rev hd_rev)
  show ?thesis by (simp add: strip_def a b)
qed

lemma py_int_digits:
  assumes "ds \<noteq> []" "list_all is_digit ds" "length ds \<le> MAX_STR_DIGITS"
  shows "py_int ds = Inr (int (nat_of_digits ds))"
proof -
  obtain c r where ds: "ds = c # r" using assms(1) by (cases ds) auto
  with assms(2) have "is_digit c" by simp
  then have "c \<noteq> CHR ''-''" "c \<noteq> CHR ''+''" by (simp_all add: digit_not_special)
  then show ?thesis
    using assms ds
    by (simp add: py_int_def strip_digits int_body_def int_body_ok_digits filter_digits
             del: int_body_ok.simps)
qed

lemma zero_pad_digits: "0 \<le> i \<Longrightarrow> list_all is_digit (zero_pad w i)"
proof -
  assume "0 \<le> i"
  moreover have "is_digit CHR ''0''" by (simp add: is_digit_def)
  moreover have "list_all is_digit (digits_of (nat i))" by (rule digits_of_digits)
  ultimately show ?thesis by (auto simp: zero_pad_def list_all_iff)
qed

lemma zero_pad_not_Nil: "zero_pad w i \<noteq> []"
  by (simp add: zero_pad_def digits_of_not_Nil)

lemma length_digits_of: "n < 10 ^ w \<Longrightarrow> 0 < w \<Longrightarrow> length (digits_of n) \<le> w"
proof (induction n arbitrary: w rule: digits_of.induct)
  case (1 n)
  show ?case
  proof (cases "n < 10")
    case True
    with 1(3) show ?thesis by (subst digits_of.simps) simp
  next
    case False
    obtain v where w: "w = Suc v" using 1(3) by (cases w) auto
    from False 1(2) w have v: "0 < v" by (cases v) auto
    from 1(2) w have "n div 10 < 10 ^ v" by (simp add: less_mult_imp_div_less mult.commute)
    with 1(1) [OF False _ v] have "length (digits_of (n div 10)) \<le> v" by simp
    with False w show ?thesis by (subst digits_of.simps) simp
  qed
qed

lemma length_zero_pad: "0 \<le> i \<Longrightarrow> i < 10 ^ w \<Longrightarrow> 0 < w \<Longrightarrow> length (zero_pad w i) = w"
proof -
  assume a: "0 \<le> i" "i < 10 ^ w" "0 < w"
  then have "nat i < 10 ^ w" by (simp add: nat_less_iff)
  from length_digits_of [OF this a(3)] a(1) show ?thesis by (simp add: zero_pad_def)
qed

lemma py_int_zero_pad:
  assumes "0 \<le> i" "i < 10 ^ w" "0 < w" "w \<le> MAX_STR_DIGITS"
  shows "py_int (zero_pad w i) = Inr i"
proof -
  have "length (zero_pad w i) \<le> MAX_STR_DIGITS"
    using length_zero_pad [OF assms(1-3)] assms(4) by simp
  from py_int_digits [OF zero_pad_not_Nil zero_pad_digits [OF assms(1)] this]
  have "py_int (zero_pad w i) = Inr (int (nat_of_digits (zero_pad w i)))" .
  also have "nat_of_digits (zero_pad w i) = nat i"
    using assms(1) by (simp add: zero_pad_def nat_of_digits_zeros nat_of_digits_of)
  finally show ?thesis using assms(1) by simp
qed

lemma nat_of_digits_less: "list_all is_digit ds \<Longrightarrow> nat_of_digits ds < 10 ^ length ds"
proof (induction ds rule: rev_induct)
  case Nil
  then show ?case by (simp add: nat_of_digits_def)
next
  case (snoc c xs)
  then have "nat_of_digits xs < 10 ^ length xs" and "digit_val c < 10"
    by (simp_all add: digit_val_less)
  then show ?case by (simp add: nat_of_digits_snoc)
qed

section \<open>The validator and the constructor on well-formed input\<close>

lemma days_in_month_le: "days_in_month y m \<le> 31"
  by (simp add: days_in_month_def)

lemma days_in_month_ge: "28 \<le> days_in_month y m"
  by (simp add: days_in_month_def)

lemma date_object_iff: "date_object y m d = Inr D \<longleftrightarrow>
    (D = \<lparr>date_year = y, date_month = m, date_day = d\<rparr> \<and> valid_date D)"
  using days_in_month_le [of y m]
  by (auto simp: date_object_def valid_date_def c_int_def MINYEAR_def MAXYEAR_def)

lemma date_object_valid: "valid_date D \<Longrightarrow> date_object (date_year D) (date_month D) (date_day D) = Inr D"
  by (simp add: date_object_iff)

lemma str_split_not_Nil: "str_split sep s \<noteq> []"
  by (induction s) (auto split: list.splits)

lemma str_split_none: "sep \<notin> set a \<Longrightarrow> str_split sep a = [a]"
  by (induction a) auto

lemma str_split_append: "sep \<notin> set a \<Longrightarrow> str_split sep (a @ sep # s) = a # str_split sep s"
  by (induction a) auto

lemma digits_no_sep: "list_all is_digit a \<Longrightarrow> \<not> is_digit sep \<Longrightarrow> sep \<notin> set a"
  by (auto simp: list_all_iff)

lemma hyphen_not_digit: "\<not> is_digit CHR ''-''"
  by (simp add: is_digit_def)

lemma space_not_digit: "\<not> is_digit CHR '' ''"
  by (simp add: is_digit_def)

lemma str_split_ymd:
  assumes "list_all is_digit ys" "list_all is_digit ms" "list_all is_digit ds"
  shows "str_split CHR ''-'' (ys @ ''-'' @ ms @ ''-'' @ ds) = [ys, ms, ds]"
proof -
  note h = digits_no_sep [OF _ hyphen_not_digit]
  show ?thesis
    using str_split_append [OF h [OF assms(1)]] str_split_append [OF h [OF assms(2)]]
      str_split_none [OF h [OF assms(3)]]
    by simp
qed

lemma re_match_shape:
  assumes "length ys = 4" "list_all is_digit ys" "length ms = 2" "list_all is_digit ms"
    "length ds = 2" "list_all is_digit ds"
  shows "re_match date_pattern (ys @ ''-'' @ ms @ ''-'' @ ds @ rest)"
proof -
  from assms(1) obtain a b c d where ys: "ys = [a, b, c, d]"
    by (auto simp: length_Suc_conv eval_nat_numeral)
  from assms(3) obtain e f where ms: "ms = [e, f]"
    by (auto simp: length_Suc_conv eval_nat_numeral)
  from assms(5) obtain g h where ds: "ds = [g, h]"
    by (auto simp: length_Suc_conv eval_nat_numeral)
  show ?thesis using assms(2,4,6) by (simp add: ys ms ds date_pattern_def)
qed

lemma try_date_digits:
  assumes "length ys = 4" "list_all is_digit ys" "length ms = 2" "list_all is_digit ms"
    "length ds = 2" "list_all is_digit ds"
  shows "try_date ys ms ds =
    Inr (case date_object (int (nat_of_digits ys)) (int (nat_of_digits ms))
                (int (nat_of_digits ds)) of
           Inl _ \<Rightarrow> False
         | Inr _ \<Rightarrow> True)"
proof -
  from assms have ne: "ys \<noteq> []" "ms \<noteq> []" "ds \<noteq> []" by auto
  from assms have len: "length ys \<le> MAX_STR_DIGITS" "length ms \<le> MAX_STR_DIGITS"
    "length ds \<le> MAX_STR_DIGITS" by (simp_all add: MAX_STR_DIGITS_def)
  have "nat_of_digits ys < 10 ^ 4" "nat_of_digits ms < 10 ^ 2" "nat_of_digits ds < 10 ^ 2"
    using nat_of_digits_less [OF assms(2)] nat_of_digits_less [OF assms(4)]
      nat_of_digits_less [OF assms(6)] assms(1,3,5) by simp_all
  then have c: "c_int (int (nat_of_digits ys))" "c_int (int (nat_of_digits ms))"
    "c_int (int (nat_of_digits ds))" by (simp_all add: c_int_def)
  show ?thesis
    by (simp add: try_date_def py_int_digits [OF ne(1) assms(2) len(1)]
        py_int_digits [OF ne(2) assms(4) len(2)] py_int_digits [OF ne(3) assms(6) len(3)]
        date_object_def c)
qed

lemma valid_date_bounds:
  assumes "valid_date D"
  shows "0 \<le> date_year D" "date_year D < 10 ^ 4" "0 \<le> date_month D" "date_month D < 10 ^ 2"
    "0 \<le> date_day D" "date_day D < 10 ^ 2"
  using assms days_in_month_le [of "date_year D" "date_month D"]
  by (auto simp: valid_date_def MINYEAR_def MAXYEAR_def)

lemma py_int_zero_pad_date:
  assumes "valid_date D"
  shows "py_int (zero_pad 4 (date_year D)) = Inr (date_year D)"
    and "py_int (zero_pad 2 (date_month D)) = Inr (date_month D)"
    and "py_int (zero_pad 2 (date_day D)) = Inr (date_day D)"
  using valid_date_bounds [OF assms]
  by (simp_all add: py_int_zero_pad MAX_STR_DIGITS_def)

lemma is_ymd_str_date: "valid_date D \<Longrightarrow> is_ymd (str_date D) = Inr True"
proof -
  assume v: "valid_date D"
  note b = valid_date_bounds [OF v]
  have m: "re_match date_pattern (str_date D)"
    using re_match_shape [of "zero_pad 4 (date_year D)" "zero_pad 2 (date_month D)"
        "zero_pad 2 (date_day D)" "[]"] b
    by (simp add: str_date_def length_zero_pad zero_pad_digits)
  have s: "str_split CHR ''-'' (str_date D) =
      [zero_pad 4 (date_year D), zero_pad 2 (date_month D), zero_pad 2 (date_day D)]"
    unfolding str_date_def using b by (intro str_split_ymd zero_pad_digits)
  have t: "try_date (zero_pad 4 (date_year D)) (zero_pad 2 (date_month D)) (zero_pad 2 (date_day D))
      = Inr True"
    by (simp add: try_date_def py_int_zero_pad_date [OF v] date_object_valid [OF v])
  show ?thesis by (simp add: is_ymd_def m s t)
qed

lemma ymd_from_string_str_date: "valid_date D \<Longrightarrow> ymd_from_string (str_date D) = Inr (ymd_of_date D)"
proof -
  assume v: "valid_date D"
  note b = valid_date_bounds [OF v]
  have s: "str_split CHR ''-'' (str_date D) =
      [zero_pad 4 (date_year D), zero_pad 2 (date_month D), zero_pad 2 (date_day D)]"
    unfolding str_date_def using b by (intro str_split_ymd zero_pad_digits)
  show ?thesis by (simp add: ymd_from_string_def s ymd_of_date_def)
qed

lemma init_date: "valid_date D \<Longrightarrow> YMDDate_init (DateObj D) = Inr (ymd_of_date D)"
  by (simp add: is_ymd_date_def is_ymd_str_date ymd_from_date_def ymd_from_string_str_date)

lemma first_part_str_datetime:
  assumes "valid_date (dt_date T)"
  shows "first_part (str_datetime T) = str_date (dt_date T)"
proof -
  note b = valid_date_bounds [OF assms]
  have "set (str_date (dt_date T)) \<subseteq> {c. is_digit c} \<union> {CHR ''-''}"
    using zero_pad_digits [OF b(1), of 4] zero_pad_digits [OF b(3), of 2]
      zero_pad_digits [OF b(5), of 2]
    by (auto simp: str_date_def list_all_iff)
  then have "CHR '' '' \<notin> set (str_date (dt_date T))"
    using space_not_digit by auto
  from str_split_append [OF this] show ?thesis
    by (simp add: first_part_def str_datetime_def)
qed

lemma init_datetime:
  "valid_date (dt_date T) \<Longrightarrow> YMDDate_init (DateTimeObj T) = Inr (ymd_of_date (dt_date T))"
  by (simp add: is_ymd_datetime_def ymd_from_datetime_def first_part_str_datetime
      is_ymd_str_date ymd_from_string_str_date)

lemma to_date_ymd_of_date: "valid_date D \<Longrightarrow> to_date (ymd_of_date D) = Inr D"
  by (simp add: to_date_def ymd_of_date_def py_int_zero_pad_date date_object_valid)

lemma to_datetime_eq: "to_datetime self = ebind (to_date self) (\<lambda>D. Inr (midnight D))"
  by (cases "py_int (year self)"; cases "py_int (month self)"; cases "py_int (day self)")
    (simp_all add: to_datetime_def to_date_def datetime_object_def midnight_def)

lemma to_date_valid: "to_date self = Inr D \<Longrightarrow> valid_date D"
  by (cases "py_int (year self)"; cases "py_int (month self)"; cases "py_int (day self)")
    (auto simp: to_date_def date_object_iff)

lemma is_ymd_to_date:
  assumes "is_ymd s = Inr True" "ymd_from_string s = Inr a"
  shows "\<exists>D. to_date a = Inr D"
proof -
  from assms(2) obtain y m d where s: "str_split CHR ''-'' s = [y, m, d]"
    and a: "a = \<lparr>year = y, month = m, day = d\<rparr>"
    by (auto simp: ymd_from_string_def split: list.splits)
  from assms(1) s have "try_date y m d = Inr True"
    by (auto simp: is_ymd_def split: if_splits)
  then show ?thesis
    by (cases "py_int y"; cases "py_int m"; cases "py_int d"; cases "date_object (projr (py_int y)) (projr (py_int m)) (projr (py_int d))")
      (auto simp: try_date_def to_date_def a split: error.splits)
qed

lemma init_to_date: "YMDDate_init v = Inr a \<Longrightarrow> \<exists>D. to_date a = Inr D"
proof (cases v)
  case (Str s)
  assume "YMDDate_init v = Inr a"
  with Str show ?thesis
    by (cases "is_ymd s") (auto split: if_splits intro: is_ymd_to_date)
next
  case (DateObj D)
  assume "YMDDate_init v = Inr a"
  with DateObj show ?thesis
    by (cases "is_ymd_date D")
      (auto simp: is_ymd_date_def ymd_from_date_def split: if_splits intro: is_ymd_to_date)
next
  case (DateTimeObj T)
  assume "YMDDate_init v = Inr a"
  with DateTimeObj show ?thesis
    by (cases "is_ymd_datetime T")
      (auto simp: is_ymd_datetime_def ymd_from_datetime_def split: if_splits intro: is_ymd_to_date)
qed simp_all

lemma digits_of_step:
  "k < 10 \<Longrightarrow> digits_of (10 * v + k) = (if v = 0 then [digit_char k] else digits_of v @ [digit_char k])"
  by (subst digits_of.simps) auto

lemma digits_of_small: "k < 10 \<Longrightarrow> digits_of k = [digit_char k]"
  by (subst digits_of.simps) simp

lemma pad_nat_of_digits:
  "ds \<noteq> [] \<Longrightarrow> list_all is_digit ds \<Longrightarrow>
   replicate (length ds - length (digits_of (nat_of_digits ds))) CHR ''0''
     @ digits_of (nat_of_digits ds) = ds"
proof (induction ds rule: rev_induct)
  case Nil
  then show ?case by simp
next
  case (snoc c xs)
  from snoc.prems have c: "is_digit c" and xs: "list_all is_digit xs" by simp_all
  let ?v = "nat_of_digits xs"
  have k: "digit_val c < 10" by (rule digit_val_less [OF c])
  have n: "nat_of_digits (xs @ [c]) = 10 * ?v + digit_val c" by (rule nat_of_digits_snoc)
  show ?case
  proof (cases "xs = []")
    case True
    then show ?thesis using k c
      by (simp add: nat_of_digits_def digits_of_small digit_char_val)
  next
    case False
    note ih = snoc.IH [OF False xs]
    show ?thesis
    proof (cases "?v = 0")
      case True
      have "digit_char 0 = CHR ''0''"
        using digit_char_val [of "CHR ''0''"] by (simp add: is_digit_def digit_val_def)
      then have "digits_of 0 = ''0''" by (subst digits_of.simps) simp
      with ih True have "replicate (length xs - 1) CHR ''0'' @ ''0'' = xs" by simp
      then have "replicate (length xs) CHR ''0'' = xs"
        using False
        by (metis One_nat_def Suc_pred length_greater_0_conv replicate_Suc replicate_append_same)
      then show ?thesis using True k c
        by (simp add: n digits_of_small digit_char_val)
    next
      case nz: False
      have "length (digits_of ?v) \<le> length xs"
        using arg_cong [OF ih, of length] by simp
      then have "Suc (length xs) - Suc (length (digits_of ?v)) = length xs - length (digits_of ?v)"
        by simp
      then show ?thesis using nz k c ih
        by (simp add: n digits_of_step digit_char_val)
    qed
  qed
qed

lemma zero_pad_nat_of_digits:
  "ds \<noteq> [] \<Longrightarrow> list_all is_digit ds \<Longrightarrow> zero_pad (length ds) (int (nat_of_digits ds)) = ds"
  using pad_nat_of_digits [of ds] by (simp add: zero_pad_def)

lemma canonical_ymd_of_date: "valid_date D \<Longrightarrow> canonical (ymd_of_date D)"
  using valid_date_bounds [of D]
  by (simp add: canonical_def ymd_of_date_def length_zero_pad zero_pad_digits)

lemma to_date_digits:
  assumes "canonical a"
  shows "to_date a = date_object (int (nat_of_digits (year a))) (int (nat_of_digits (month a)))
    (int (nat_of_digits (day a)))"
proof -
  from assms have ne: "year a \<noteq> []" "month a \<noteq> []" "day a \<noteq> []"
    and dg: "list_all is_digit (year a)" "list_all is_digit (month a)" "list_all is_digit (day a)"
    and len: "length (year a) \<le> MAX_STR_DIGITS" "length (month a) \<le> MAX_STR_DIGITS"
      "length (day a) \<le> MAX_STR_DIGITS"
    by (auto simp: canonical_def MAX_STR_DIGITS_def)
  show ?thesis
    by (simp add: to_date_def py_int_digits [OF ne(1) dg(1) len(1)]
        py_int_digits [OF ne(2) dg(2) len(2)] py_int_digits [OF ne(3) dg(3) len(3)])
qed

lemma canonical_to_date:
  assumes "canonical a" "to_date a = Inr D"
  shows "ymd_of_date D = a"
proof -
  from assms(1) have ne: "year a \<noteq> []" "month a \<noteq> []" "day a \<noteq> []"
    and dg: "list_all is_digit (year a)" "list_all is_digit (month a)" "list_all is_digit (day a)"
    and len: "length (year a) = 4" "length (month a) = 2" "length (day a) = 2"
    by (auto simp: canonical_def)
  from assms(2) to_date_digits [OF assms(1)]
  have D: "D = \<lparr>date_year = int (nat_of_digits (year a)), date_month = int (nat_of_digits (month a)),
      date_day = int (nat_of_digits (day a))\<rparr>"
    by (simp add: date_object_iff)
  show ?thesis
    using zero_pad_nat_of_digits [OF ne(1) dg(1)] zero_pad_nat_of_digits [OF ne(2) dg(2)]
      zero_pad_nat_of_digits [OF ne(3) dg(3)]
    by (simp add: ymd_of_date_def D len)
qed

lemma exact_shape_parts:
  assumes "exact_shape s"
  shows "s = take 4 s @ ''-'' @ take 2 (drop 5 s) @ ''-'' @ drop 8 s"
proof -
  from assms have "length s = 10" by (simp add: exact_shape_def)
  then obtain a b c d e f g h i j where s: "s = [a, b, c, d, e, f, g, h, i, j]"
    by (auto simp: length_Suc_conv eval_nat_numeral)
  with assms show ?thesis by (simp add: exact_shape_def)
qed

lemma is_ymd_exact_shape:
  assumes "exact_shape s"
  shows "is_ymd s = Inr (calendar_valid s)"
    and "ymd_from_string s = Inr \<lparr>year = take 4 s, month = take 2 (drop 5 s), day = drop 8 s\<rparr>"
proof -
  let ?y = "take 4 s" and ?m = "take 2 (drop 5 s)" and ?d = "drop 8 s"
  from assms have dg: "list_all is_digit ?y" "list_all is_digit ?m" "list_all is_digit ?d"
    and len: "length ?y = 4" "length ?m = 2" "length ?d = 2"
    by (auto simp: exact_shape_def)
  from len have ne: "?y \<noteq> []" "?m \<noteq> []" "?d \<noteq> []" by auto
  have s: "s = ?y @ ''-'' @ ?m @ ''-'' @ ?d" by (rule exact_shape_parts [OF assms])
  have m: "re_match date_pattern s"
    using re_match_shape [OF len(1) dg(1) len(2) dg(2) len(3) dg(3), of "[]"] s by simp
  have sp: "str_split CHR ''-'' s = [?y, ?m, ?d]"
    using str_split_ymd [OF dg] s by simp
  have t: "try_date ?y ?m ?d = Inr (calendar_valid s)"
    unfolding try_date_digits [OF len(1) dg(1) len(2) dg(2) len(3) dg(3)] calendar_valid_def
    by simp
  show "is_ymd s = Inr (calendar_valid s)" by (simp add: is_ymd_def m sp t)
  show "ymd_from_string s = Inr \<lparr>year = ?y, month = ?m, day = ?d\<rparr>"
    by (simp add: ymd_from_string_def sp)
qed

lemma init_copy:
  assumes "to_date self = Inr D"
  shows "ebind (to_datetime self) (\<lambda>T. YMDDate_init (DateTimeObj T)) = Inr (ymd_of_date D)"
proof -
  have "YMDDate_init (DateTimeObj (midnight D)) = Inr (ymd_of_date D)"
    using init_datetime [of "midnight D"] to_date_valid [OF assms] by (simp add: midnight_def)
  then show ?thesis by (simp add: to_datetime_eq assms del: YMDDate_init.simps)
qed

section \<open>Steps on the calendar\<close>

lemma valid_date_md: "valid_date D \<longleftrightarrow> MINYEAR \<le> date_year D \<and> date_year D \<le> MAXYEAR \<and> valid_md D"
  by (auto simp: valid_date_def valid_md_def)

lemma valid_md_next_day: "valid_md D \<Longrightarrow> valid_md (next_day D)"
  using days_in_month_ge [of "date_year D" "date_month D + 1"] days_in_month_ge [of "date_year D + 1" 1]
  by (auto simp: valid_md_def next_day_def)

lemma valid_md_prev_day: "valid_md D \<Longrightarrow> valid_md (prev_day D)"
  using days_in_month_ge [of "date_year D" "date_month D - 1"]
  by (auto simp: valid_md_def prev_day_def days_in_month_def)

lemma prev_next_day: "valid_md D \<Longrightarrow> prev_day (next_day D) = D"
  by (auto simp: valid_md_def next_day_def prev_day_def days_in_month_def)

lemma next_prev_day: "valid_md D \<Longrightarrow> next_day (prev_day D) = D"
  by (auto simp: valid_md_def next_day_def prev_day_def days_in_month_def)

lemma date_key_next_day: "valid_md D \<Longrightarrow> date_key D < date_key (next_day D)"
  using days_in_month_le [of "date_year D" "date_month D"]
  by (auto simp: valid_md_def next_day_def date_key_def)

lemma date_gt_next_day: "valid_md D \<Longrightarrow> date_gt (next_day D) D"
  by (auto simp: valid_md_def next_day_def date_gt_def)

lemma next_day_least:
  assumes "valid_md D" "valid_md F" "date_gt F D"
  shows "date_ge F (next_day D)"
  using assms
  by (cases D; cases F) (auto simp: valid_md_def next_day_def date_gt_def date_ge_def)

lemma no_date_after_last:
  assumes "valid_date D" "\<not> date_year (next_day D) \<le> MAXYEAR" "valid_date F"
  shows "\<not> date_gt F D"
  using assms
  by (cases D; cases F) (auto simp: valid_date_def next_day_def date_gt_def split: if_splits)

lemma date_gt_trans: "date_gt A B \<Longrightarrow> date_gt B C \<Longrightarrow> date_gt A C"
  by (auto simp: date_gt_def)

lemma date_ge_gt_trans: "date_ge A B \<Longrightarrow> date_gt B C \<Longrightarrow> date_gt A C"
  by (auto simp: date_gt_def date_ge_def)

lemma date_gt_irrefl: "\<not> date_gt A A"
  by (simp add: date_gt_def)

lemma date_trichotomy: "date_gt A B \<or> date_gt B A \<or> A = B"
  by (cases A; cases B) (auto simp: date_gt_def)

lemma date_gt_asym: "date_gt A B \<Longrightarrow> \<not> date_gt B A"
  by (auto simp: date_gt_def)

lemma tomorrow_eq:
  assumes "to_date x = Inr D"
  shows "tomorrow x =
    (if date_year (next_day D) \<le> MAXYEAR then Inr (ymd_of_date (next_day D)) else Inl OverflowError)"
proof -
  have v: "valid_date D" by (rule to_date_valid [OF assms])
  then have y: "MINYEAR \<le> date_year (next_day D)"
    by (auto simp: valid_date_def next_day_def)
  have md: "valid_md (next_day D)" using v valid_md_next_day by (simp add: valid_date_md)
  have s: "shift_days D 1 = next_day D" by (simp add: shift_days_def)
  show ?thesis
  proof (cases "date_year (next_day D) \<le> MAXYEAR")
    case True
    with y md have "valid_date (next_day D)" by (simp add: valid_date_md)
    from init_datetime [of "(midnight D)\<lparr>dt_date := next_day D\<rparr>"] this True y show ?thesis
      by (simp add: tomorrow_def to_datetime_eq assms timedelta_days_def datetime_add_def s
          midnight_def del: YMDDate_init.simps)
  next
    case False
    then show ?thesis
      by (simp add: tomorrow_def to_datetime_eq assms timedelta_days_def datetime_add_def s
          midnight_def del: YMDDate_init.simps)
  qed
qed

lemma tomorrow_Inr:
  assumes "tomorrow x = Inr t"
  shows "\<exists>D. to_date x = Inr D \<and> valid_date (next_day D) \<and> t = ymd_of_date (next_day D)"
proof (cases "to_date x")
  case (Inl e)
  with assms show ?thesis by (simp add: tomorrow_def to_datetime_eq)
next
  case (Inr D)
  have v: "valid_date D" by (rule to_date_valid [OF Inr])
  then have y: "MINYEAR \<le> date_year (next_day D)"
    by (auto simp: valid_date_def next_day_def)
  have md: "valid_md (next_day D)" using v valid_md_next_day by (simp add: valid_date_md)
  from assms tomorrow_eq [OF Inr] y md show ?thesis
    by (auto simp: Inr valid_date_md split: if_splits)
qed

section \<open>The next business day\<close>

text \<open>
  \<open>next_business_day\<close> starts at \<open>tomorrow()\<close> and replaces the candidate by its
  \<open>tomorrow()\<close> while it is a federal holiday or falls on a weekend; \<open>or\<close> asks for
  the weekend only when the candidate is no holiday.  \<open>tomorrow()\<close> raises past
  9999-12-31, so the loop always ends: each round moves the candidate to a later date.
\<close>

function nbd_loop :: "calendar \<Rightarrow> YMDDate \<Rightarrow> error + YMDDate" where
  "nbd_loop cal candidate =
     (case is_us_federal_holiday cal candidate of
        Inl e \<Rightarrow> Inl e
      | Inr holiday \<Rightarrow>
          (case (if holiday then Inr True else is_weekend candidate) of
             Inl e \<Rightarrow> Inl e
           | Inr again \<Rightarrow>
               if again
               then (case tomorrow candidate of
                       Inl e \<Rightarrow> Inl e
                     | Inr t \<Rightarrow> nbd_loop cal t)
               else Inr candidate))"
  by pat_completeness auto
termination
proof (relation "measure (\<lambda>(cal, x). case to_date x of Inl _ \<Rightarrow> 0 | Inr D \<Rightarrow> nat (4000000 - date_key D))")
  show "wf (measure (\<lambda>(cal, x). case to_date x of Inl _ \<Rightarrow> 0 | Inr D \<Rightarrow> nat (4000000 - date_key D)))"
    by simp
next
  fix cal :: calendar and candidate :: YMDDate and holiday again t
  assume "tomorrow candidate = Inr t"
  from tomorrow_Inr [OF this] obtain D where D: "to_date candidate = Inr D"
    and v: "valid_date (next_day D)" and t: "t = ymd_of_date (next_day D)"
    by blast
  have vD: "valid_date D" by (rule to_date_valid [OF D])
  have "date_key (next_day D) < 4000000"
    using v days_in_month_le [of "date_year (next_day D)" "date_month (next_day D)"]
    by (simp add: valid_date_def date_key_def MAXYEAR_def)
  moreover have "date_key D < date_key (next_day D)"
    using vD by (intro date_key_next_day) (simp add: valid_date_md)
  ultimately show "((cal, t), (cal, candidate)) \<in> measure (\<lambda>(cal, x). case to_date x of Inl _ \<Rightarrow> 0 | Inr D \<Rightarrow> nat (4000000 - date_key D))"
    by (simp add: D t to_date_ymd_of_date [OF v])
qed

definition next_business_day :: "calendar \<Rightarrow> YMDDate \<Rightarrow> error + YMDDate" where
  "next_business_day cal self = ebind (tomorrow self) (nbd_loop cal)"

declare nbd_loop.simps [simp del]

lemma re_match_Digit: "re_match (Digit # items) s \<longleftrightarrow> (\<exists>c t. s = c # t \<and> is_digit c \<and> re_match items t)"
  by (cases s) auto

lemma re_match_Lit: "re_match (Lit l # items) s \<longleftrightarrow> (\<exists>t. s = l # t \<and> re_match items t)"
  by (cases s) auto

lemma re_match_year:
  assumes "re_match date_pattern s"
  shows "\<exists>ys t. s = ys @ CHR ''-'' # t \<and> length ys = 4 \<and> list_all is_digit ys"
proof -
  from assms obtain a b c d t where "s = [a, b, c, d] @ CHR ''-'' # t"
    "is_digit a" "is_digit b" "is_digit c" "is_digit d"
    by (auto simp: date_pattern_def re_match_Digit re_match_Lit)
  then show ?thesis by (intro exI [of _ "[a, b, c, d]"] exI [of _ t]) simp
qed

lemma is_ymd_year:
  assumes "is_ymd s = Inr True" "ymd_from_string s = Inr x"
  shows "length (year x) = 4 \<and> list_all is_digit (year x)"
proof -
  from assms(1) have "re_match date_pattern s"
    by (auto simp: is_ymd_def split: if_splits)
  from re_match_year [OF this] obtain ys t where s: "s = ys @ CHR ''-'' # t"
    and ys: "length ys = 4" "list_all is_digit ys" by blast
  have "str_split CHR ''-'' s = ys # str_split CHR ''-'' t"
    unfolding s by (rule str_split_append [OF digits_no_sep [OF ys(2) hyphen_not_digit]])
  with assms(2) have "year x = ys"
    by (auto simp: ymd_from_string_def split: list.splits)
  with ys show ?thesis by simp
qed

lemma init_is_ymd:
  assumes "YMDDate_init w = Inr x"
  shows "\<exists>s. is_ymd s = Inr True \<and> ymd_from_string s = Inr x"
proof (cases w)
  case (Str s)
  with assms show ?thesis
    by (cases "is_ymd s") (auto split: if_splits)
next
  case (DateObj D)
  with assms show ?thesis
    by (cases "is_ymd_date D")
      (auto simp: is_ymd_date_def ymd_from_date_def split: if_splits)
next
  case (DateTimeObj T)
  with assms show ?thesis
    by (cases "is_ymd_datetime T")
      (auto simp: is_ymd_datetime_def ymd_from_datetime_def split: if_splits)
qed (use assms in simp_all)

lemma init_year:
  assumes "YMDDate_init w = Inr x"
  shows "length (year x) = 4 \<and> list_all is_digit (year x)"
  using init_is_ymd [OF assms] is_ymd_year by blast

lemma year_text:
  assumes "YMDDate_init w = Inr x" "to_date x = Inr D"
  shows "year x = zero_pad 4 (date_year D)"
proof -
  from init_year [OF assms(1)] have len: "length (year x) = 4" and dg: "list_all is_digit (year x)"
    by simp_all
  from len have ne: "year x \<noteq> []" by auto
  from len have "length (year x) \<le> MAX_STR_DIGITS" by (simp add: MAX_STR_DIGITS_def)
  then have "py_int (year x) = Inr (int (nat_of_digits (year x)))" by (rule py_int_digits [OF ne dg])
  with assms(2) have "date_year D = int (nat_of_digits (year x))"
    by (cases "py_int (month x)"; cases "py_int (day x)") (auto simp: to_date_def date_object_iff)
  with zero_pad_nat_of_digits [OF ne dg] len show ?thesis by simp
qed

lemma holiday_weekend:
  assumes "to_date x = Inr D" "year x = zero_pad 4 (date_year D)"
  shows "is_us_federal_holiday cal x
      = ebind (holidays_of cal D) (\<lambda>holidays. Inr (D \<in> set holidays))"
    and "is_weekend x = Inr (weekday D \<ge> 5)"
  using assms by (simp_all add: is_us_federal_holiday_def is_weekend_def holidays_of_def)

lemma non_business_iff:
  assumes "to_date x = Inr D" "year x = zero_pad 4 (date_year D)"
  shows "non_business cal D \<longleftrightarrow>
    is_us_federal_holiday cal x = Inr True
    \<or> (is_us_federal_holiday cal x = Inr False \<and> is_weekend x = Inr True)"
  by (cases "holidays_of cal D") (auto simp: holiday_weekend [OF assms] non_business_def)

lemma business_day_iff:
  assumes "to_date x = Inr D" "year x = zero_pad 4 (date_year D)"
  shows "business_day cal D \<longleftrightarrow>
    is_us_federal_holiday cal x = Inr False \<and> is_weekend x = Inr False"
  by (cases "holidays_of cal D") (auto simp: holiday_weekend [OF assms] business_day_def)

lemma provider_raises_iff:
  assumes "to_date x = Inr D" "year x = zero_pad 4 (date_year D)"
  shows "holidays_of cal D = Inl e \<longleftrightarrow> is_us_federal_holiday cal x = Inl e"
  by (cases "holidays_of cal D") (auto simp: holiday_weekend [OF assms])

lemma ymd_of_date_year: "year (ymd_of_date D) = zero_pad 4 (date_year D)"
  by (simp add: ymd_of_date_def)

lemma day_kinds:
  "(\<exists>e. holidays_of cal D = Inl e) \<or> business_day cal D \<or> non_business cal D"
  by (cases "holidays_of cal D") (auto simp: business_day_def non_business_def)

lemma nbd_loop_step:
  assumes "valid_date D"
  shows "nbd_loop cal (ymd_of_date D) =
    (case holidays_of cal D of
       Inl e \<Rightarrow> Inl e
     | Inr _ \<Rightarrow>
         if non_business cal D
         then (if date_year (next_day D) \<le> MAXYEAR
               then nbd_loop cal (ymd_of_date (next_day D))
               else Inl OverflowError)
         else Inr (ymd_of_date D))"
proof -
  note td = to_date_ymd_of_date [OF assms]
  note hw = holiday_weekend [OF td ymd_of_date_year]
  show ?thesis
    by (subst nbd_loop.simps)
      (auto simp: hw tomorrow_eq [OF td] non_business_def split: sum.splits)
qed

lemma nbd_loop_raises: "valid_date D \<Longrightarrow> holidays_of cal D = Inl e \<Longrightarrow> nbd_loop cal (ymd_of_date D) = Inl e"
  by (simp add: nbd_loop_step)

lemma nbd_loop_found: "valid_date D \<Longrightarrow> business_day cal D \<Longrightarrow> nbd_loop cal (ymd_of_date D) = Inr (ymd_of_date D)"
  by (cases "holidays_of cal D") (auto simp: nbd_loop_step business_day_def non_business_def)

lemma nbd_loop_on:
  "valid_date D \<Longrightarrow> non_business cal D \<Longrightarrow>
   nbd_loop cal (ymd_of_date D) =
     (if date_year (next_day D) \<le> MAXYEAR then nbd_loop cal (ymd_of_date (next_day D))
      else Inl OverflowError)"
  by (cases "holidays_of cal D") (auto simp: nbd_loop_step non_business_def)

lemma nbd_loop_correct:
  assumes "valid_date D"
  shows "case nbd_loop cal (ymd_of_date D) of
      Inr r \<Rightarrow> (\<exists>E. r = ymd_of_date E \<and> valid_date E \<and> date_ge E D \<and> business_day cal E
                   \<and> (\<forall>F. valid_date F \<and> date_ge F D \<and> date_gt E F \<longrightarrow> non_business cal F))
    | Inl e \<Rightarrow>
        (e = OverflowError \<and> (\<forall>F. valid_date F \<and> date_ge F D \<longrightarrow> non_business cal F))
        \<or> (\<exists>E. valid_date E \<and> date_ge E D \<and> holidays_of cal E = Inl e
                 \<and> (\<forall>F. valid_date F \<and> date_ge F D \<and> date_gt E F \<longrightarrow> non_business cal F))"
  using assms
proof (induction "nat (4000000 - date_key D)" arbitrary: D rule: less_induct)
  case less
  note v = less.prems
  have md: "valid_md D" using v by (simp add: valid_date_md)
  have self: "date_ge D D" by (simp add: date_ge_def)
  have none: "\<forall>F. valid_date F \<and> date_ge F D \<and> date_gt D F \<longrightarrow> non_business cal F"
    using date_gt_asym date_gt_irrefl by (auto simp: date_ge_def)
  from day_kinds [of cal D] consider e where "holidays_of cal D = Inl e"
    | "business_day cal D" | "non_business cal D" by blast
  then show ?case
  proof cases
    case 1
    with v self none show ?thesis by (auto simp: nbd_loop_raises [OF v 1])
  next
    case 2
    with v self none show ?thesis by (auto simp: nbd_loop_found [OF v 2])
  next
    case nb: 3
    show ?thesis
    proof (cases "date_year (next_day D) \<le> MAXYEAR")
      case False
      have "\<forall>F. valid_date F \<and> date_ge F D \<longrightarrow> non_business cal F"
        using no_date_after_last [OF v False] nb by (auto simp: date_ge_def)
      with False show ?thesis by (simp add: nbd_loop_on [OF v nb])
    next
      case True
      let ?N = "next_day D"
      have vN: "valid_date ?N"
        using v True valid_md_next_day [OF md] by (auto simp: valid_date_md next_day_def)
      have "date_key ?N < 4000000"
        using vN days_in_month_le [of "date_year ?N" "date_month ?N"]
        by (simp add: valid_date_def date_key_def MAXYEAR_def)
      with date_key_next_day [OF md]
      have "nat (4000000 - date_key ?N) < nat (4000000 - date_key D)" by simp
      note ih = less.hyps [OF this vN]
      have step: "nbd_loop cal (ymd_of_date D) = nbd_loop cal (ymd_of_date ?N)"
        using True by (simp add: nbd_loop_on [OF v nb])
      have up: "\<And>F. valid_date F \<Longrightarrow> date_ge F D \<Longrightarrow> F \<noteq> D \<Longrightarrow> date_ge F ?N"
        using next_day_least [OF md] by (auto simp: date_ge_def valid_date_md)
      have gN: "date_gt ?N D" by (rule date_gt_next_day [OF md])
      have widen: "\<forall>F. valid_date F \<and> date_ge F D \<and> P F \<longrightarrow> non_business cal F"
        if "\<forall>F. valid_date F \<and> date_ge F ?N \<and> P F \<longrightarrow> non_business cal F" for P
        using that up nb by blast
      show ?thesis
      proof (cases "nbd_loop cal (ymd_of_date ?N)")
        case (Inl e)
        with ih consider
          "e = OverflowError" "\<forall>F. valid_date F \<and> date_ge F ?N \<and> True \<longrightarrow> non_business cal F"
          | E where "valid_date E" "date_ge E ?N" "holidays_of cal E = Inl e"
            "\<forall>F. valid_date F \<and> date_ge F ?N \<and> date_gt E F \<longrightarrow> non_business cal F"
          by auto
        then show ?thesis
        proof cases
          case 1
          from widen [OF 1(2)] 1(1) Inl step show ?thesis by simp
        next
          case 2
          have "date_ge E D" using date_ge_gt_trans [OF 2(2) gN] by (simp add: date_ge_def)
          with widen [OF 2(4)] 2(1,3) Inl step show ?thesis by auto
        qed
      next
        case (Inr r)
        with ih obtain E where E: "r = ymd_of_date E" "valid_date E" "date_ge E ?N"
          "business_day cal E"
          and all: "\<forall>F. valid_date F \<and> date_ge F ?N \<and> date_gt E F \<longrightarrow> non_business cal F"
          by auto
        have "date_ge E D" using date_ge_gt_trans [OF E(3) gN] by (simp add: date_ge_def)
        with widen [OF all] E Inr step show ?thesis by auto
      qed
    qed
  qed
qed

lemma ymd_gt_insts:
  assumes "to_date a = Inr A" "to_date b = Inr B"
  shows "ymd_gt a (Inst b) = Inr (date_gt A B)"
  using assms by (simp add: ymd_gt_def compare_with_def)

lemma ymd_ge_insts:
  assumes "to_date a = Inr A" "to_date b = Inr B"
  shows "ymd_ge a (Inst b) = Inr (date_ge A B)"
  using assms by (simp add: ymd_ge_def compare_with_def)

section \<open>What the operations return\<close>

lemma ebind_eq_Inr: "ebind m f = Inr a \<longleftrightarrow> (\<exists>x. m = Inr x \<and> f x = Inr a)"
  by (cases m) auto

lemma result_ok_init: "result_ok (YMDDate_init v)"
  using init_to_date [of v] by (auto simp: result_ok_def denotes_date_def split: sum.splits)

lemma result_ok_ebind: "(\<And>x. result_ok (f x)) \<Longrightarrow> result_ok (ebind m f)"
  by (cases m) (auto simp: result_ok_def)

lemma result_ok_forward_or_back: "result_ok (forward_or_back self forward delta)"
  unfolding forward_or_back_def by (intro result_ok_ebind result_ok_init)

lemma result_ok_n_days: "result_ok (n_days self days)"
  unfolding n_days_def by (auto intro!: result_ok_ebind result_ok_init simp del: YMDDate_init.simps)

lemma result_ok_n_weeks: "result_ok (n_weeks self weeks)"
  unfolding n_weeks_def by (auto intro!: result_ok_ebind result_ok_init simp del: YMDDate_init.simps)

lemma result_ok_n_months: "result_ok (n_months self months units wpm dpm)"
  unfolding n_months_def Let_def
  by (auto intro!: result_ok_ebind result_ok_init result_ok_forward_or_back simp del: YMDDate_init.simps)
    (simp add: result_ok_def)

lemma result_ok_n_years: "result_ok (n_years self years units dpy wpy)"
  unfolding n_years_def Let_def
  by (auto intro!: result_ok_ebind result_ok_init result_ok_forward_or_back simp del: YMDDate_init.simps)
    (simp add: result_ok_def)

lemma result_ok_tomorrow: "result_ok (tomorrow self)"
  unfolding tomorrow_def by (intro result_ok_ebind result_ok_init)

lemma result_ok_next_week: "result_ok (next_week self)"
  unfolding next_week_def by (intro result_ok_ebind result_ok_init)

lemma result_ok_next_business_day: "result_ok (next_business_day cal self)"
proof (cases "tomorrow self")
  case (Inl e)
  then show ?thesis by (simp add: next_business_day_def result_ok_def)
next
  case (Inr t)
  from tomorrow_Inr [OF Inr] obtain D where v: "valid_date (next_day D)"
    and t: "t = ymd_of_date (next_day D)" by blast
  from nbd_loop_correct [OF v, of cal] show ?thesis
    by (auto simp: next_business_day_def Inr t result_ok_def denotes_date_def to_date_ymd_of_date
        split: sum.splits)
qed

lemma full_result_ok_next_month: "full_result_ok (next_month self full_date)"
  using result_ok_n_months [of self 1 "''W''" 4 30]
  by (cases "n_months self 1 ''W'' 4 30")
    (auto simp: next_month_def full_result_ok_def result_ok_def ebind_eq_Inr split: sum.splits)

lemma full_result_ok_next_year: "full_result_ok (next_year self full_date)"
  using result_ok_n_years [of self 1 "''W''" 365 52]
  by (cases "n_years self 1 ''W'' 365 52")
    (auto simp: next_year_def full_result_ok_def result_ok_def ebind_eq_Inr split: sum.splits)

section \<open>Moving by days\<close>

lemma valid_md_funpow_next: "valid_md D \<Longrightarrow> valid_md ((next_day ^^ n) D)"
  by (induction n) (simp_all add: valid_md_next_day)

lemma valid_md_funpow_prev: "valid_md D \<Longrightarrow> valid_md ((prev_day ^^ n) D)"
  by (induction n) (simp_all add: valid_md_prev_day)

lemma valid_md_shift_days: "valid_md D \<Longrightarrow> valid_md (shift_days D n)"
  by (simp add: shift_days_def valid_md_funpow_next valid_md_funpow_prev)

lemma funpow_prev_next: "valid_md D \<Longrightarrow> (prev_day ^^ n) ((next_day ^^ n) D) = D"
proof (induction n)
  case 0
  then show ?case by simp
next
  case (Suc n)
  have "(prev_day ^^ Suc n) ((next_day ^^ Suc n) D)
      = (prev_day ^^ n) (prev_day (next_day ((next_day ^^ n) D)))"
    by (simp add: funpow_swap1)
  also have "\<dots> = (prev_day ^^ n) ((next_day ^^ n) D)"
    by (simp add: prev_next_day valid_md_funpow_next [OF Suc.prems])
  finally show ?case using Suc by simp
qed

lemma funpow_next_prev: "valid_md D \<Longrightarrow> (next_day ^^ n) ((prev_day ^^ n) D) = D"
proof (induction n)
  case 0
  then show ?case by simp
next
  case (Suc n)
  have "(next_day ^^ Suc n) ((prev_day ^^ Suc n) D)
      = (next_day ^^ n) (next_day (prev_day ((prev_day ^^ n) D)))"
    by (simp add: funpow_swap1)
  also have "\<dots> = (next_day ^^ n) ((prev_day ^^ n) D)"
    by (simp add: next_prev_day valid_md_funpow_prev [OF Suc.prems])
  finally show ?case using Suc by simp
qed

lemma shift_days_back: "valid_md D \<Longrightarrow> shift_days (shift_days D n) (- n) = D"
  by (cases "0 \<le> n"; cases "n = 0")
    (simp_all add: shift_days_def funpow_prev_next funpow_next_prev)

lemma shift_days_0: "shift_days D 0 = D"
  by (simp add: shift_days_def)

lemma n_days_eq:
  assumes "to_date self = Inr D"
  shows "n_days self d =
    (if \<bar>d\<bar> \<le> 999999999 \<and> MINYEAR \<le> date_year (shift_days D d) \<and> date_year (shift_days D d) \<le> MAXYEAR
     then Inr (ymd_of_date (shift_days D d)) else Inl OverflowError)"
proof -
  have v: "valid_date D" by (rule to_date_valid [OF assms])
  then have md: "valid_md (shift_days D d)" by (simp add: valid_date_md valid_md_shift_days)
  have init: "YMDDate_init (DateTimeObj ((midnight D)\<lparr>dt_date := shift_days D d\<rparr>))
      = Inr (ymd_of_date (shift_days D d))"
    if "MINYEAR \<le> date_year (shift_days D d)" "date_year (shift_days D d) \<le> MAXYEAR"
    using init_datetime [of "(midnight D)\<lparr>dt_date := shift_days D d\<rparr>"] that md
    by (simp add: valid_date_md)
  have add: "ebind (datetime_add (midnight D) d) (\<lambda>T'. YMDDate_init (DateTimeObj T')) =
      (if MINYEAR \<le> date_year (shift_days D d) \<and> date_year (shift_days D d) \<le> MAXYEAR
       then Inr (ymd_of_date (shift_days D d)) else Inl OverflowError)"
  proof (cases "MINYEAR \<le> date_year (shift_days D d) \<and> date_year (shift_days D d) \<le> MAXYEAR")
    case True
    with init show ?thesis
      by (simp add: datetime_add_def Let_def midnight_def del: YMDDate_init.simps)
  next
    case False
    then show ?thesis
      by (auto simp add: datetime_add_def Let_def midnight_def simp del: YMDDate_init.simps)
  qed
  consider "d > 0" | "d < 0" | "d = 0" by linarith
  then show ?thesis
  proof cases
    case 1
    then show ?thesis
      using add by (simp add: n_days_def to_datetime_eq assms timedelta_days_def del: YMDDate_init.simps)
  next
    case 2
    then show ?thesis
      using add
      by (simp add: n_days_def to_datetime_eq assms timedelta_days_def datetime_sub_def
          del: YMDDate_init.simps)
  next
    case 3
    with v show ?thesis
      using init_copy [OF assms]
      by (simp add: n_days_def shift_days_0 valid_date_def del: YMDDate_init.simps)
  qed
qed

section \<open>The holiday list\<close>

lemma loop_rejected:
  "YMDDate_init (Str s) = Inl e \<Longrightarrow>
   is_holiday_loop self (Str s # hs) = (if e = ValueError then Inr None else Inl e)"
  by (cases e) (simp_all del: YMDDate_init.simps)

lemma loop_match: "matches self h \<Longrightarrow> is_holiday_loop self (h # hs) = Inr (Some True)"
  by (cases h)
    (auto simp: matches_def split: sum.splits simp del: YMDDate_init.simps)

lemma loop_skip:
  "\<not> malformed h \<Longrightarrow> \<not> matches self h \<Longrightarrow> is_holiday_loop self (h # hs) = is_holiday_loop self hs"
  by (cases h)
    (auto simp: malformed_def matches_def split: sum.splits bool.splits simp del: YMDDate_init.simps)

lemma loop_prefix:
  "\<forall>h \<in> set pre. \<not> malformed h \<and> \<not> matches self h \<Longrightarrow>
   is_holiday_loop self (pre @ rest) = is_holiday_loop self rest"
  by (induction pre) (simp_all add: loop_skip del: is_holiday_loop.simps)

lemma is_holiday_cases:
  "is_holiday self [] = Inr (Some False)
   \<and> ((\<forall>c \<in> set pre. \<not> malformed c \<and> \<not> matches self c) \<and> YMDDate_init (Str s) = Inl e
        \<longrightarrow> is_holiday self (pre @ Str s # post) = (if e = ValueError then Inr None else Inl e))
   \<and> ((\<forall>c \<in> set pre. \<not> malformed c \<and> \<not> matches self c) \<and> matches self h
        \<longrightarrow> is_holiday self (pre @ h # post) = Inr (Some True))
   \<and> ((\<forall>c \<in> set hs. \<not> malformed c \<and> \<not> matches self c)
        \<longrightarrow> is_holiday self hs = Inr (Some False))"
proof (intro conjI impI)
  show "is_holiday self [] = Inr (Some False)" by (simp add: is_holiday_def)
next
  assume "(\<forall>c \<in> set pre. \<not> malformed c \<and> \<not> matches self c) \<and> YMDDate_init (Str s) = Inl e"
  then show "is_holiday self (pre @ Str s # post) = (if e = ValueError then Inr None else Inl e)"
    by (simp add: is_holiday_def loop_prefix loop_rejected
        del: is_holiday_loop.simps YMDDate_init.simps)
next
  assume "(\<forall>c \<in> set pre. \<not> malformed c \<and> \<not> matches self c) \<and> matches self h"
  then show "is_holiday self (pre @ h # post) = Inr (Some True)"
    by (simp add: is_holiday_def loop_prefix loop_match del: is_holiday_loop.simps)
next
  assume "\<forall>c \<in> set hs. \<not> malformed c \<and> \<not> matches self c"
  from loop_prefix [OF this, of "[]"] show "is_holiday self hs = Inr (Some False)"
    by (simp add: is_holiday_def)
qed

section \<open>Concrete inputs\<close>

lemma init_2024_01_12:
  "YMDDate_init (Str ''2024-01-12'') = Inr \<lparr>year = ''2024'', month = ''01'', day = ''12''\<rparr>"
  using is_ymd_exact_shape [of "''2024-01-12''"]
  by (simp add: exact_shape_def calendar_valid_def is_digit_def nat_of_digits_def digit_val_def
      date_object_def c_int_def MINYEAR_def MAXYEAR_def days_in_month_def is_leap_def)

lemma digit_chars:
  "digit_char 0 = CHR ''0''" "digit_char 1 = CHR ''1''" "digit_char 2 = CHR ''2''"
  "digit_char 3 = CHR ''3''" "digit_char 4 = CHR ''4''" "digit_char 5 = CHR ''5''"
  "digit_char 6 = CHR ''6''" "digit_char 7 = CHR ''7''" "digit_char 8 = CHR ''8''"
  "digit_char 9 = CHR ''9''" "digit_char (Suc 0) = CHR ''1''"
  using digit_char_val [of "CHR ''0''"] digit_char_val [of "CHR ''1''"] digit_char_val [of "CHR ''2''"]
    digit_char_val [of "CHR ''3''"] digit_char_val [of "CHR ''4''"] digit_char_val [of "CHR ''5''"]
    digit_char_val [of "CHR ''6''"] digit_char_val [of "CHR ''7''"] digit_char_val [of "CHR ''8''"]
    digit_char_val [of "CHR ''9''"]
  by (simp_all add: is_digit_def digit_val_def)

lemmas text_eval = py_int_def strip_def is_space_def int_body_def MAX_STR_DIGITS_def is_digit_def
  nat_of_digits_def digit_val_def zero_pad_def digits_of.simps digit_chars

lemmas cal_eval = valid_date_def date_object_def c_int_def MINYEAR_def MAXYEAR_def
  days_in_month_def is_leap_def next_day_def prev_day_def holidays_of_def non_business_def
  business_day_def weekday_def toordinal_def days_before_year_def days_before_month_def
  DAYS_BEFORE_MONTH_def

lemma to_date_2024_01_12:
  "to_date \<lparr>year = ''2024'', month = ''01'', day = ''12''\<rparr>
     = Inr \<lparr>date_year = 2024, date_month = 1, date_day = 12\<rparr>"
  by (simp add: to_date_def text_eval cal_eval)

lemma nbd_2024_01_12:
  "next_business_day january_2024 \<lparr>year = ''2024'', month = ''01'', day = ''12''\<rparr>
     = Inr \<lparr>year = ''2024'', month = ''01'', day = ''16''\<rparr>"
proof -
  let ?D = "\<lambda>d. \<lparr>date_year = 2024, date_month = 1, date_day = d\<rparr>"
  have "next_business_day january_2024 \<lparr>year = ''2024'', month = ''01'', day = ''12''\<rparr>
      = nbd_loop january_2024 (ymd_of_date (?D 13))"
    by (simp add: next_business_day_def tomorrow_eq [OF to_date_2024_01_12] cal_eval)
  also have "\<dots> = nbd_loop january_2024 (ymd_of_date (?D 14))"
    by (subst nbd_loop_step) (simp_all add: cal_eval january_2024_def text_eval)
  also have "\<dots> = nbd_loop january_2024 (ymd_of_date (?D 15))"
    by (subst nbd_loop_step) (simp_all add: cal_eval january_2024_def text_eval)
  also have "\<dots> = nbd_loop january_2024 (ymd_of_date (?D 16))"
    by (subst nbd_loop_step) (simp_all add: cal_eval january_2024_def text_eval)
  also have "\<dots> = Inr (ymd_of_date (?D 16))"
    by (subst nbd_loop_step) (simp_all add: cal_eval january_2024_def text_eval)
  also have "ymd_of_date (?D 16) = \<lparr>year = ''2024'', month = ''01'', day = ''16''\<rparr>"
    by (simp add: ymd_of_date_def text_eval)
  finally show ?thesis .
qed

lemma to_date_9999_12_31:
  "to_date \<lparr>year = ''9999'', month = ''12'', day = ''31''\<rparr>
     = Inr \<lparr>date_year = 9999, date_month = 12, date_day = 31\<rparr>"
  by (simp add: to_date_def text_eval cal_eval)

lemma init_9999_12_31:
  "YMDDate_init (Str ''9999-12-31'') = Inr \<lparr>year = ''9999'', month = ''12'', day = ''31''\<rparr>"
  using is_ymd_exact_shape [of "''9999-12-31''"]
  by (simp add: exact_shape_def calendar_valid_def text_eval cal_eval)


lemma shape_0099: "exact_shape ''0099-01-05''"
  by code_simp

lemma valid_0099: "calendar_valid ''0099-01-05''"
  by code_simp

lemma init_2024_01_15:
  "YMDDate_init (Str ''2024-01-15'') = Inr \<lparr>year = ''2024'', month = ''01'', day = ''15''\<rparr>"
  by code_simp

lemma init_not_a_date: "YMDDate_init (Str ''not-a-date'') = Inl ValueError"
  by (simp add: is_ymd_def date_pattern_def is_digit_def)

lemma is_ymd_day_2147483648: "is_ymd ''2024-01-2147483648'' = Inl OverflowError"
  by (simp add: is_ymd_def date_pattern_def try_date_def text_eval cal_eval)

lemma init_day_2147483648: "YMDDate_init (Str ''2024-01-2147483648'') = Inl OverflowError"
  by (simp add: is_ymd_day_2147483648)

lemma init_2024_02_28:
  "YMDDate_init (Str ''2024-02-28'') = Inr \<lparr>year = ''2024'', month = ''02'', day = ''28''\<rparr>"
  using is_ymd_exact_shape [of "''2024-02-28''"]
  by (simp add: exact_shape_def calendar_valid_def text_eval cal_eval)

lemma to_date_2024_02_28:
  "to_date \<lparr>year = ''2024'', month = ''02'', day = ''28''\<rparr>
     = Inr \<lparr>date_year = 2024, date_month = 2, date_day = 28\<rparr>"
  by (simp add: to_date_def text_eval cal_eval)

lemma shift_2024_02_28:
  "shift_days \<lparr>date_year = 2024, date_month = 2, date_day = 28\<rparr> 2
     = \<lparr>date_year = 2024, date_month = 3, date_day = 1\<rparr>"
  by (simp add: shift_days_def numeral_2_eq_2 valid_date_def days_in_month_def is_leap_def
      next_day_def)

lemma ymd_2024_03_01:
  "ymd_of_date \<lparr>date_year = 2024, date_month = 3, date_day = 1\<rparr>
     = \<lparr>year = ''2024'', month = ''03'', day = ''01''\<rparr>"
  by (simp add: ymd_of_date_def text_eval)

lemma n_days_2024_02_28:
  "n_days \<lparr>year = ''2024'', month = ''02'', day = ''28''\<rparr> 2
     = Inr \<lparr>year = ''2024'', month = ''03'', day = ''01''\<rparr>"
  unfolding n_days_eq [OF to_date_2024_02_28] shift_2024_02_28 ymd_2024_03_01
  by (simp add: MINYEAR_def MAXYEAR_def)

lemma canonical_2024_02_28: "canonical \<lparr>year = ''2024'', month = ''02'', day = ''28''\<rparr>"
  by (simp add: canonical_def is_digit_def)

lemma shift_9999_12_31:
  "shift_days \<lparr>date_year = 9999, date_month = 12, date_day = 31\<rparr> 1
     = \<lparr>date_year = 10000, date_month = 1, date_day = 1\<rparr>"
  by (simp add: shift_days_def cal_eval)

lemma denotes_2024_02_28: "denotes_date \<lparr>year = ''2024'', month = ''02'', day = ''28''\<rparr>"
  by (simp add: denotes_date_def to_date_2024_02_28)

lemma init_2024_01_13:
  "YMDDate_init (Str ''2024-01-13'') = Inr \<lparr>year = ''2024'', month = ''01'', day = ''13''\<rparr>"
  using is_ymd_exact_shape [of "''2024-01-13''"]
  by (simp add: exact_shape_def calendar_valid_def text_eval cal_eval)

lemma to_date_2024_01_13:
  "to_date \<lparr>year = ''2024'', month = ''01'', day = ''13''\<rparr>
     = Inr \<lparr>date_year = 2024, date_month = 1, date_day = 13\<rparr>"
  by (simp add: to_date_def text_eval cal_eval)

lemma to_date_2024_01_16:
  "to_date \<lparr>year = ''2024'', month = ''01'', day = ''16''\<rparr>
     = Inr \<lparr>date_year = 2024, date_month = 1, date_day = 16\<rparr>"
  by (simp add: to_date_def text_eval cal_eval)

lemma between_2024_01_13:
  "ymd_gt \<lparr>year = ''2024'', month = ''01'', day = ''13''\<rparr>
      (Inst \<lparr>year = ''2024'', month = ''01'', day = ''12''\<rparr>) = Inr True
   \<and> ymd_gt \<lparr>year = ''2024'', month = ''01'', day = ''16''\<rparr>
      (Inst \<lparr>year = ''2024'', month = ''01'', day = ''13''\<rparr>) = Inr True"
  by (simp add: ymd_gt_insts [OF to_date_2024_01_13 to_date_2024_01_12]
      ymd_gt_insts [OF to_date_2024_01_16 to_date_2024_01_13] date_gt_def)

lemma holiday_2024_01_16:
  "is_us_federal_holiday january_2024 \<lparr>year = ''2024'', month = ''01'', day = ''16''\<rparr> = Inr False
   \<and> is_weekend \<lparr>year = ''2024'', month = ''01'', day = ''16''\<rparr> = Inr False"
  by (simp add: is_us_federal_holiday_def is_weekend_def to_date_2024_01_16 january_2024_def
      weekday_def toordinal_def days_before_year_def days_before_month_def DAYS_BEFORE_MONTH_def
      is_leap_def)

section \<open>The claims\<close>

text \<open>
  Claim C1: two instances are equal exactly when their years, months and days are equal
  as integers.  \<open>__eq__\<close> compares the stored texts.  The validator accepts
  \<open>2024-01-011\<close>, whose day text \<open>011\<close> is kept as it is; the instance built from it
  and the one built from \<open>2024-01-11\<close> denote the same date and are not equal.
\<close>

theorem eq_compares_texts:
  "YMDDate_init (Str ''2024-01-011'') = Inr \<lparr>year = ''2024'', month = ''01'', day = ''011''\<rparr>
   \<and> YMDDate_init (Str ''2024-01-11'') = Inr \<lparr>year = ''2024'', month = ''01'', day = ''11''\<rparr>
   \<and> to_date \<lparr>year = ''2024'', month = ''01'', day = ''011''\<rparr>
       = to_date \<lparr>year = ''2024'', month = ''01'', day = ''11''\<rparr>
   \<and> ymd_eq \<lparr>year = ''2024'', month = ''01'', day = ''011''\<rparr>
        (Inst \<lparr>year = ''2024'', month = ''01'', day = ''11''\<rparr>) = Inr False"
  by code_simp

text \<open>
  Claim C2: \<open>is_ymd\<close> is true exactly for four digits, a hyphen, two digits, a hyphen,
  two digits and nothing more, forming a date, and false without raising otherwise.
  The pattern is matched at the start of the text only: a text that goes on after the
  tenth character with a digit or with a blank is accepted, and one that goes on with a
  third hyphen leaves \<open>is_ymd\<close> by a \<open>ValueError\<close>.
\<close>

theorem is_ymd_trailing_text:
  "is_ymd ''2024-01-011'' = Inr True \<and> is_ymd ''2024-01-01 '' = Inr True
   \<and> is_ymd ''2024-01-01-01'' = Inl ValueError"
  by code_simp

text \<open>
  Claim C3: for every calendar-valid text \<open>S\<close> of the shape YYYY-MM-DD, the constructor
  succeeds on \<open>S\<close> and the text of the instance is \<open>S\<close> again, zeros included.
\<close>

theorem str_of_constructed:
  assumes "exact_shape S" and "calendar_valid S"
  shows "\<exists>a. YMDDate_init (Str S) = Inr a \<and> str_ymd a = S"
  using assms is_ymd_exact_shape [OF assms(1)] exact_shape_parts [OF assms(1)]
  by (simp add: str_ymd_def)

theorem str_of_constructed_witness:
  "exact_shape ''0099-01-05'' \<and> calendar_valid ''0099-01-05''
   \<and> (\<exists>a. YMDDate_init (Str ''0099-01-05'') = Inr a \<and> str_ymd a = ''0099-01-05'')"
  using str_of_constructed [OF shape_0099 valid_0099] shape_0099 valid_0099 by simp

text \<open>
  Claim C4: of greater-than, less-than (the negation of greater-or-equal) and equality,
  exactly one holds between two instances.  Between the instances built from
  \<open>2024-01-011\<close> and \<open>2024-01-11\<close> none holds: the dates are the same, so neither is
  greater and the first is not less, and the texts differ, so they are not equal.
\<close>

theorem no_order_relation_holds:
  "YMDDate_init (Str ''2024-01-011'') = Inr \<lparr>year = ''2024'', month = ''01'', day = ''011''\<rparr>
   \<and> YMDDate_init (Str ''2024-01-11'') = Inr \<lparr>year = ''2024'', month = ''01'', day = ''11''\<rparr>
   \<and> ymd_gt \<lparr>year = ''2024'', month = ''01'', day = ''011''\<rparr>
        (Inst \<lparr>year = ''2024'', month = ''01'', day = ''11''\<rparr>) = Inr False
   \<and> ymd_ge \<lparr>year = ''2024'', month = ''01'', day = ''011''\<rparr>
        (Inst \<lparr>year = ''2024'', month = ''01'', day = ''11''\<rparr>) = Inr True
   \<and> ymd_eq \<lparr>year = ''2024'', month = ''01'', day = ''011''\<rparr>
        (Inst \<lparr>year = ''2024'', month = ''01'', day = ''11''\<rparr>) = Inr False"
  by code_simp

text \<open>
  Claim C5: the constructor either raises or returns an instance that denotes a date of
  the calendar primitive, and so does every operation that returns a new instance:
  \<open>n_days\<close>, \<open>n_weeks\<close>, \<open>n_months\<close>, \<open>n_years\<close>, \<open>tomorrow\<close>, \<open>next_week\<close>,
  \<open>next_month\<close>, \<open>next_year\<close> and \<open>next_business_day\<close>, each of which ends in the
  constructor.  A raise is a result without an instance, so nothing is kept of a
  failed construction.
\<close>

theorem valid_date_invariant:
  "result_ok (YMDDate_init v)
   \<and> result_ok (n_days self n) \<and> result_ok (n_weeks self n)
   \<and> result_ok (n_months self n units weeks_per_month days_per_month)
   \<and> result_ok (n_years self n units days_per_year weeks_per_year)
   \<and> result_ok (tomorrow self) \<and> result_ok (next_week self)
   \<and> full_result_ok (next_month self full_date) \<and> full_result_ok (next_year self full_date)
   \<and> result_ok (next_business_day cal self)"
  by (intro conjI result_ok_init result_ok_n_days result_ok_n_weeks result_ok_n_months
      result_ok_n_years result_ok_tomorrow result_ok_next_week full_result_ok_next_month
      full_result_ok_next_year result_ok_next_business_day)

theorem valid_date_invariant_witness:
  "YMDDate_init (Str ''2024-02-28'') = Inr \<lparr>year = ''2024'', month = ''02'', day = ''28''\<rparr>
   \<and> denotes_date \<lparr>year = ''2024'', month = ''02'', day = ''28''\<rparr>
   \<and> n_days \<lparr>year = ''2024'', month = ''02'', day = ''28''\<rparr> 2
       = Inr \<lparr>year = ''2024'', month = ''03'', day = ''01''\<rparr>
   \<and> denotes_date \<lparr>year = ''2024'', month = ''03'', day = ''01''\<rparr>
   \<and> next_business_day january_2024 \<lparr>year = ''2024'', month = ''01'', day = ''12''\<rparr>
       = Inr \<lparr>year = ''2024'', month = ''01'', day = ''16''\<rparr>
   \<and> denotes_date \<lparr>year = ''2024'', month = ''01'', day = ''16''\<rparr>"
proof -
  note a = valid_date_invariant [where v = "Str ''2024-02-28''"
      and self = "\<lparr>year = ''2024'', month = ''02'', day = ''28''\<rparr>" and n = 2]
  note b = valid_date_invariant [where self = "\<lparr>year = ''2024'', month = ''01'', day = ''12''\<rparr>"
      and cal = january_2024]
  from a have "denotes_date \<lparr>year = ''2024'', month = ''02'', day = ''28''\<rparr>"
    and "denotes_date \<lparr>year = ''2024'', month = ''03'', day = ''01''\<rparr>"
    by (simp_all add: result_ok_def init_2024_02_28 n_days_2024_02_28 del: YMDDate_init.simps)
  moreover from b have "denotes_date \<lparr>year = ''2024'', month = ''01'', day = ''16''\<rparr>"
    by (simp add: result_ok_def nbd_2024_01_12)
  ultimately show ?thesis
    using init_2024_02_28 n_days_2024_02_28 nbd_2024_01_12 by blast
qed

text \<open>
  Claim C6, as amended: for every constructed instance and every integer \<open>d\<close> for which
  \<open>n_days d\<close> returns, which it does when the date \<open>d\<close> days away lies between
  0001-01-01 and 9999-12-31, \<open>n_days (- d)\<close> on the result returns an instance that
  denotes the date of the original, and is equal to the original by \<open>__eq__\<close> when the
  original is canonical; \<open>n_days 0\<close> always returns such an instance.  Outside that
  range \<open>n_days\<close> raises \<open>OverflowError\<close>, as one day after 9999-12-31.
\<close>

theorem n_days_round_trip:
  assumes "YMDDate_init v = Inr self"
  shows "(n_days self d = Inr there \<longrightarrow>
            (\<exists>back D. n_days there (- d) = Inr back \<and> to_date self = Inr D \<and> to_date back = Inr D
               \<and> (canonical self \<longrightarrow> ymd_eq back (Inst self) = Inr True)))
    \<and> (\<exists>copy D. n_days self 0 = Inr copy \<and> to_date self = Inr D \<and> to_date copy = Inr D
               \<and> (canonical self \<longrightarrow> ymd_eq copy (Inst self) = Inr True))"
proof -
  from init_to_date [OF assms] obtain D where D: "to_date self = Inr D" by blast
  have v: "valid_date D" by (rule to_date_valid [OF D])
  have md: "valid_md D" using v by (simp add: valid_date_md)
  have tD: "to_date (ymd_of_date D) = Inr D" by (rule to_date_ymd_of_date [OF v])
  have eq: "canonical self \<longrightarrow> ymd_eq (ymd_of_date D) (Inst self) = Inr True"
    using canonical_to_date [OF _ D] by (auto simp: same_texts_def)
  have zero: "n_days self 0 = Inr (ymd_of_date D)"
    using v by (simp add: n_days_eq [OF D] shift_days_0 valid_date_def)
  have ret: "n_days there (- d) = Inr (ymd_of_date D)" if there: "n_days self d = Inr there"
  proof -
    let ?E = "shift_days D d"
    from there have d: "\<bar>d\<bar> \<le> 999999999" and y: "MINYEAR \<le> date_year ?E" "date_year ?E \<le> MAXYEAR"
      and t: "there = ymd_of_date ?E"
      by (auto simp: n_days_eq [OF D] split: if_splits)
    have vE: "valid_date ?E" using y valid_md_shift_days [OF md] by (simp add: valid_date_md)
    have tE: "to_date there = Inr ?E" by (simp add: t to_date_ymd_of_date [OF vE])
    show ?thesis
      using d v by (simp add: n_days_eq [OF tE] shift_days_back [OF md] valid_date_def)
  qed
  from ret zero D tD eq show ?thesis by blast
qed

theorem n_days_round_trip_witness:
  "YMDDate_init (Str ''2024-02-28'') = Inr \<lparr>year = ''2024'', month = ''02'', day = ''28''\<rparr>
   \<and> n_days \<lparr>year = ''2024'', month = ''02'', day = ''28''\<rparr> 2
       = Inr \<lparr>year = ''2024'', month = ''03'', day = ''01''\<rparr>
   \<and> canonical \<lparr>year = ''2024'', month = ''02'', day = ''28''\<rparr>
   \<and> (\<exists>back D. n_days \<lparr>year = ''2024'', month = ''03'', day = ''01''\<rparr> (- 2) = Inr back
         \<and> to_date \<lparr>year = ''2024'', month = ''02'', day = ''28''\<rparr> = Inr D \<and> to_date back = Inr D
         \<and> ymd_eq back (Inst \<lparr>year = ''2024'', month = ''02'', day = ''28''\<rparr>) = Inr True)
   \<and> (\<exists>copy D. n_days \<lparr>year = ''2024'', month = ''02'', day = ''28''\<rparr> 0 = Inr copy
         \<and> to_date \<lparr>year = ''2024'', month = ''02'', day = ''28''\<rparr> = Inr D \<and> to_date copy = Inr D
         \<and> ymd_eq copy (Inst \<lparr>year = ''2024'', month = ''02'', day = ''28''\<rparr>) = Inr True)"
  using n_days_round_trip [OF init_2024_02_28, of 2 "\<lparr>year = ''2024'', month = ''03'', day = ''01''\<rparr>"]
    init_2024_02_28 n_days_2024_02_28 canonical_2024_02_28
  by blast

theorem n_days_past_last_date:
  "YMDDate_init (Str ''9999-12-31'') = Inr \<lparr>year = ''9999'', month = ''12'', day = ''31''\<rparr>
   \<and> n_days \<lparr>year = ''9999'', month = ''12'', day = ''31''\<rparr> 1 = Inl OverflowError"
  unfolding n_days_eq [OF to_date_9999_12_31] shift_9999_12_31 init_9999_12_31
  by (simp add: MINYEAR_def MAXYEAR_def)

text \<open>
  Claim C7: \<open>is_holiday\<close> is \<open>False\<close> on the empty list, \<open>None\<close> as soon as a text
  of the list fails to parse, \<open>True\<close> on the first entry equal to the instance, and
  \<open>False\<close> when the list is exhausted.  Only a \<open>ValueError\<close> of the constructor is caught.
  The validator lets the text \<open>2024-01-2147483648\<close> through its pattern, and \<open>date\<close>
  raises \<open>OverflowError\<close> on a day that does not fit a C integer: on a list with this
  text \<open>is_holiday\<close> raises, where on \<open>not-a-date\<close> it returns \<open>None\<close>.
\<close>

theorem is_holiday_overflow_escapes:
  "YMDDate_init (Str ''2024-01-15'') = Inr \<lparr>year = ''2024'', month = ''01'', day = ''15''\<rparr>
   \<and> YMDDate_init (Str ''2024-01-2147483648'') = Inl OverflowError
   \<and> is_holiday \<lparr>year = ''2024'', month = ''01'', day = ''15''\<rparr> [Str ''2024-01-2147483648'']
       = Inl OverflowError
   \<and> is_holiday \<lparr>year = ''2024'', month = ''01'', day = ''15''\<rparr> [Str ''not-a-date'']
       = Inr None"
  by (simp add: init_2024_01_15 init_day_2147483648 init_not_a_date is_holiday_def
      del: YMDDate_init.simps)

text \<open>
  Claim C8, as amended: for every instance, every integer \<open>months\<close> other than 0 and
  every \<open>units\<close> whose upper case is neither \<open>W\<close> nor \<open>D\<close>, \<open>n_months\<close> raises
  \<open>ValueError\<close>.  With \<open>months = 0\<close> the copy is returned before \<open>units\<close> is looked
  at, as the evaluation after the witness shows.
\<close>

theorem n_months_unknown_unit:
  assumes "months \<noteq> 0" and "upper units \<noteq> ''W''" and "upper units \<noteq> ''D''"
  shows "n_months self months units weeks_per_month days_per_month = Inl ValueError"
  using assms by (simp add: n_months_def)

theorem n_months_unknown_unit_witness:
  "(3::int) \<noteq> 0 \<and> upper ''months'' \<noteq> ''W'' \<and> upper ''months'' \<noteq> ''D''
   \<and> n_months \<lparr>year = ''2024'', month = ''01'', day = ''15''\<rparr> 3 ''months'' 4 30 = Inl ValueError"
proof -
  have u: "upper ''months'' \<noteq> ''W''" "upper ''months'' \<noteq> ''D''" by code_simp+
  have n: "(3::int) \<noteq> 0" by simp
  from n_months_unknown_unit [OF n u] u show ?thesis by simp
qed

theorem n_months_zero_unknown_unit:
  "YMDDate_init (Str ''2024-01-15'') = Inr \<lparr>year = ''2024'', month = ''01'', day = ''15''\<rparr>
   \<and> upper ''X'' \<noteq> ''W'' \<and> upper ''X'' \<noteq> ''D''
   \<and> n_months \<lparr>year = ''2024'', month = ''01'', day = ''15''\<rparr> 0 ''X'' 4 30
       = Inr \<lparr>year = ''2024'', month = ''01'', day = ''15''\<rparr>"
  by code_simp

text \<open>
  Claim C9, as amended: for every constructed instance, \<open>next_business_day\<close> goes
  through the later dates in order, starting with tomorrow.  When it returns, the result
  is later than the instance, is no federal holiday and not on a weekend, and every
  constructed instance strictly between the two is a federal holiday or, being none, on
  a weekend: the result is the earliest such date.  It returns whenever the provider
  answers up to such a date and there is one up to 9999-12-31.  Otherwise it raises:
  \<open>OverflowError\<close> when every later date up to 9999-12-31 is a holiday or on a weekend
  (as for 9999-12-31 itself, which has no later date), or the error of the provider at
  the first later date for which the provider raises, every date before that one being a
  holiday or on a weekend.
\<close>

theorem next_business_day_earliest:
  assumes "YMDDate_init v = Inr self"
  shows "case next_business_day cal self of
      Inr r \<Rightarrow>
        ymd_gt r (Inst self) = Inr True
        \<and> is_us_federal_holiday cal r = Inr False \<and> is_weekend r = Inr False
        \<and> (\<forall>w x. YMDDate_init w = Inr x \<and> ymd_gt x (Inst self) = Inr True
                  \<and> ymd_gt r (Inst x) = Inr True
              \<longrightarrow> is_us_federal_holiday cal x = Inr True
                  \<or> (is_us_federal_holiday cal x = Inr False \<and> is_weekend x = Inr True))
    | Inl e \<Rightarrow>
        (e = OverflowError
         \<and> (\<forall>w x. YMDDate_init w = Inr x \<and> ymd_gt x (Inst self) = Inr True
               \<longrightarrow> is_us_federal_holiday cal x = Inr True
                   \<or> (is_us_federal_holiday cal x = Inr False \<and> is_weekend x = Inr True)))
        \<or> (\<exists>u c. YMDDate_init u = Inr c \<and> ymd_gt c (Inst self) = Inr True
               \<and> is_us_federal_holiday cal c = Inl e
               \<and> (\<forall>w x. YMDDate_init w = Inr x \<and> ymd_gt x (Inst self) = Inr True
                       \<and> ymd_gt c (Inst x) = Inr True
                     \<longrightarrow> is_us_federal_holiday cal x = Inr True
                         \<or> (is_us_federal_holiday cal x = Inr False \<and> is_weekend x = Inr True)))"
proof -
  from init_to_date [OF assms] obtain D where D: "to_date self = Inr D" by blast
  have v: "valid_date D" by (rule to_date_valid [OF D])
  have md: "valid_md D" using v by (simp add: valid_date_md)
  let ?N = "next_day D"
  let ?skipped = "\<lambda>x. is_us_federal_holiday cal x = Inr True
    \<or> (is_us_federal_holiday cal x = Inr False \<and> is_weekend x = Inr True)"
  have lift: "\<forall>w x. YMDDate_init w = Inr x \<and> ymd_gt x (Inst self) = Inr True \<and> Q x \<longrightarrow> ?skipped x"
    if all: "\<forall>F. valid_date F \<and> date_ge F ?N \<and> P F \<longrightarrow> non_business cal F"
      and QP: "\<And>x F. to_date x = Inr F \<Longrightarrow> Q x \<Longrightarrow> P F"
    for P Q
  proof (intro allI impI)
    fix w x
    assume a: "YMDDate_init w = Inr x \<and> ymd_gt x (Inst self) = Inr True \<and> Q x"
    then obtain F where F: "to_date x = Inr F" using init_to_date by blast
    have vF: "valid_date F" by (rule to_date_valid [OF F])
    from a have "date_gt F D" by (simp add: ymd_gt_insts [OF F D])
    then have "date_ge F ?N" using next_day_least [OF md] vF by (simp add: valid_date_md)
    with all vF QP [OF F] a have "non_business cal F" by blast
    with non_business_iff [OF F year_text [OF _ F]] a show "?skipped x" by blast
  qed
  show ?thesis
  proof (cases "date_year ?N \<le> MAXYEAR")
    case False
    have none: "\<forall>w x. YMDDate_init w = Inr x \<and> ymd_gt x (Inst self) = Inr True \<longrightarrow> ?skipped x"
    proof (intro allI impI)
      fix w x
      assume a: "YMDDate_init w = Inr x \<and> ymd_gt x (Inst self) = Inr True"
      then obtain F where F: "to_date x = Inr F" using init_to_date by blast
      from a have "date_gt F D" by (simp add: ymd_gt_insts [OF F D])
      with no_date_after_last [OF v False to_date_valid [OF F]] show "?skipped x" by simp
    qed
    have raised: "next_business_day cal self = Inl OverflowError"
      using False by (simp add: next_business_day_def tomorrow_eq [OF D])
    show ?thesis
      unfolding raised sum.case by (intro disjI1 conjI refl) (rule none)
  next
    case True
    have vN: "valid_date ?N"
      using v True valid_md_next_day [OF md] by (auto simp: valid_date_md next_day_def)
    have nbd: "next_business_day cal self = nbd_loop cal (ymd_of_date ?N)"
      using True by (simp add: next_business_day_def tomorrow_eq [OF D])
    note loop = nbd_loop_correct [OF vN, of cal]
    show ?thesis
    proof (cases "nbd_loop cal (ymd_of_date ?N)")
      case (Inl e)
      with loop consider
        "e = OverflowError" "\<forall>F. valid_date F \<and> date_ge F ?N \<and> True \<longrightarrow> non_business cal F"
        | E where "valid_date E" "date_ge E ?N" "holidays_of cal E = Inl e"
          "\<forall>F. valid_date F \<and> date_ge F ?N \<and> date_gt E F \<longrightarrow> non_business cal F"
        by auto
      then show ?thesis
      proof cases
        case 1
        from lift [OF 1(2), of "\<lambda>x. True"]
        have every: "\<forall>w x. YMDDate_init w = Inr x \<and> ymd_gt x (Inst self) = Inr True \<longrightarrow> ?skipped x"
          by simp
        have raised: "next_business_day cal self = Inl e" using Inl nbd by simp
        show ?thesis
          unfolding raised sum.case by (intro disjI1 conjI 1(1)) (rule every)
      next
        case 2
        let ?c = "ymd_of_date E"
        have tc: "to_date ?c = Inr E" by (rule to_date_ymd_of_date [OF 2(1)])
        have i: "YMDDate_init (DateObj E) = Inr ?c" by (rule init_date [OF 2(1)])
        have "date_gt E D" by (rule date_ge_gt_trans [OF 2(2) date_gt_next_day [OF md]])
        then have g: "ymd_gt ?c (Inst self) = Inr True" by (simp add: ymd_gt_insts [OF tc D])
        have r: "is_us_federal_holiday cal ?c = Inl e"
          using provider_raises_iff [OF tc ymd_of_date_year] 2(3) by simp
        have "\<forall>w x. YMDDate_init w = Inr x \<and> ymd_gt x (Inst self) = Inr True
            \<and> ymd_gt ?c (Inst x) = Inr True \<longrightarrow> ?skipped x"
          by (rule lift [OF 2(4)]) (simp add: ymd_gt_insts [OF tc])
        with i g r have provider: "\<exists>u c. YMDDate_init u = Inr c \<and> ymd_gt c (Inst self) = Inr True
            \<and> is_us_federal_holiday cal c = Inl e
            \<and> (\<forall>w x. YMDDate_init w = Inr x \<and> ymd_gt x (Inst self) = Inr True
                  \<and> ymd_gt c (Inst x) = Inr True \<longrightarrow> ?skipped x)"
          by blast
        have raised: "next_business_day cal self = Inl e" using Inl nbd by simp
        show ?thesis
          unfolding raised sum.case by (rule disjI2) (rule provider)
      qed
    next
      case (Inr r)
      with loop obtain E where E: "r = ymd_of_date E" "valid_date E" "date_ge E ?N"
        "business_day cal E"
        and all: "\<forall>F. valid_date F \<and> date_ge F ?N \<and> date_gt E F \<longrightarrow> non_business cal F"
        by auto
      have tE: "to_date r = Inr E" by (simp add: E(1) to_date_ymd_of_date [OF E(2)])
      have "date_gt E D" by (rule date_ge_gt_trans [OF E(3) date_gt_next_day [OF md]])
      then have 1: "ymd_gt r (Inst self) = Inr True" by (simp add: ymd_gt_insts [OF tE D])
      have 2: "is_us_federal_holiday cal r = Inr False \<and> is_weekend r = Inr False"
        using business_day_iff [OF tE, of cal] E(4) by (simp add: E(1) ymd_of_date_year)
      have 3: "\<forall>w x. YMDDate_init w = Inr x \<and> ymd_gt x (Inst self) = Inr True
          \<and> ymd_gt r (Inst x) = Inr True \<longrightarrow> ?skipped x"
        by (rule lift [OF all]) (simp add: ymd_gt_insts [OF tE])
      have returned: "next_business_day cal self = Inr r" using Inr nbd by simp
      show ?thesis
        unfolding returned sum.case using 1 2 3 by blast
    qed
  qed
qed

theorem next_business_day_earliest_witness:
  "YMDDate_init (Str ''2024-01-12'') = Inr \<lparr>year = ''2024'', month = ''01'', day = ''12''\<rparr>
   \<and> next_business_day january_2024 \<lparr>year = ''2024'', month = ''01'', day = ''12''\<rparr>
       = Inr \<lparr>year = ''2024'', month = ''01'', day = ''16''\<rparr>
   \<and> ymd_gt \<lparr>year = ''2024'', month = ''01'', day = ''16''\<rparr>
        (Inst \<lparr>year = ''2024'', month = ''01'', day = ''12''\<rparr>) = Inr True
   \<and> is_us_federal_holiday january_2024 \<lparr>year = ''2024'', month = ''01'', day = ''16''\<rparr> = Inr False
   \<and> is_weekend \<lparr>year = ''2024'', month = ''01'', day = ''16''\<rparr> = Inr False
   \<and> YMDDate_init (Str ''2024-01-13'') = Inr \<lparr>year = ''2024'', month = ''01'', day = ''13''\<rparr>
   \<and> ymd_gt \<lparr>year = ''2024'', month = ''01'', day = ''13''\<rparr>
        (Inst \<lparr>year = ''2024'', month = ''01'', day = ''12''\<rparr>) = Inr True
   \<and> ymd_gt \<lparr>year = ''2024'', month = ''01'', day = ''16''\<rparr>
        (Inst \<lparr>year = ''2024'', month = ''01'', day = ''13''\<rparr>) = Inr True
   \<and> (is_us_federal_holiday january_2024 \<lparr>year = ''2024'', month = ''01'', day = ''13''\<rparr> = Inr True
        \<or> (is_us_federal_holiday january_2024 \<lparr>year = ''2024'', month = ''01'', day = ''13''\<rparr>
              = Inr False
            \<and> is_weekend \<lparr>year = ''2024'', month = ''01'', day = ''13''\<rparr> = Inr True))"
proof -
  note t = next_business_day_earliest [OF init_2024_01_12, of january_2024]
  from t show ?thesis
    unfolding nbd_2024_01_12 sum.case
    using init_2024_01_12 nbd_2024_01_12 init_2024_01_13 between_2024_01_13 by blast
qed

theorem next_business_day_after_last_date:
  "YMDDate_init (Str ''9999-12-31'') = Inr \<lparr>year = ''9999'', month = ''12'', day = ''31''\<rparr>
   \<and> next_business_day no_holidays \<lparr>year = ''9999'', month = ''12'', day = ''31''\<rparr>
       = Inl OverflowError"
  by (simp add: init_9999_12_31 next_business_day_def tomorrow_eq [OF to_date_9999_12_31] cal_eval
      del: YMDDate_init.simps)

text \<open>
  Claim C10: for every constructed instance and every \<open>units\<close>, recognised or not,
  \<open>n_months\<close> and \<open>n_years\<close> with the count 0 return, without raising, a copy that
  denotes the same date as the instance; the copy is equal to the instance by
  \<open>__eq__\<close> when the instance is canonical.
\<close>

theorem zero_offset_copy:
  assumes "YMDDate_init v = Inr self"
  shows "\<exists>copy D. n_months self 0 units weeks_per_month days_per_month = Inr copy
    \<and> n_years self 0 units days_per_year weeks_per_year = Inr copy
    \<and> to_date self = Inr D \<and> to_date copy = Inr D
    \<and> (canonical self \<longrightarrow> ymd_eq copy (Inst self) = Inr True)"
proof -
  from init_to_date [OF assms] obtain D where D: "to_date self = Inr D" by blast
  have v: "valid_date D" by (rule to_date_valid [OF D])
  have "n_months self 0 units weeks_per_month days_per_month = Inr (ymd_of_date D)"
    by (simp add: n_months_def init_copy [OF D] del: YMDDate_init.simps)
  moreover have "n_years self 0 units days_per_year weeks_per_year = Inr (ymd_of_date D)"
    by (simp add: n_years_def init_copy [OF D] del: YMDDate_init.simps)
  moreover have "to_date (ymd_of_date D) = Inr D" by (rule to_date_ymd_of_date [OF v])
  moreover have "canonical self \<longrightarrow> ymd_eq (ymd_of_date D) (Inst self) = Inr True"
    using canonical_to_date [OF _ D] by (auto simp: same_texts_def)
  ultimately show ?thesis using D by blast
qed

theorem zero_offset_copy_witness:
  "YMDDate_init (Str ''2024-01-15'') = Inr \<lparr>year = ''2024'', month = ''01'', day = ''15''\<rparr>
   \<and> (\<exists>copy D. n_months \<lparr>year = ''2024'', month = ''01'', day = ''15''\<rparr> 0 ''fortnights'' 4 30 = Inr copy
    \<and> n_years \<lparr>year = ''2024'', month = ''01'', day = ''15''\<rparr> 0 ''fortnights'' 365 52 = Inr copy
    \<and> to_date \<lparr>year = ''2024'', month = ''01'', day = ''15''\<rparr> = Inr D \<and> to_date copy = Inr D
    \<and> (canonical \<lparr>year = ''2024'', month = ''01'', day = ''15''\<rparr> \<longrightarrow>
          ymd_eq copy (Inst \<lparr>year = ''2024'', month = ''01'', day = ''15''\<rparr>) = Inr True))"
  using zero_offset_copy [OF init_2024_01_15, of "''fortnights''" 4 30 365 52] init_2024_01_15
  by simp

end
